theory Spec2Isabelle
  imports Complex_Main "HOL-Library.AList" "HOL-Library.Extended_Nat"
begin

section \<open>Data model of the planar map tile layer\<close>

text \<open>
  The embedded program is the class \<open>PlanarMapTileLayer\<close>: its tile cache, load queue,
  retry logic, throttled view-state application, ancestor fallback and eviction.

  Conventions of the embedding.
  \<^item> A tile key is the string \<open>z/x/y\<close> built from three integers; the model uses the triple
    \<open>(z, x, y)\<close>, which determines the string and is determined by it.
  \<^item> The JavaScript \<open>Map\<close> of tiles is the list of its values in insertion order. Every
    \<open>_tiles.set(key, tile)\<close> of the source stores a tile under the tile's own \<open>key\<close> field, so the
    key of an entry is that field: \<open>getTile\<close> is \<open>Map.get\<close>, \<open>putTile\<close> is \<open>Map.set\<close> (replace in
    place, or append) and also the write-back of a mutated tile object, \<open>deleteTile\<close> is
    \<open>Map.delete\<close>.
  \<^item> Frame numbers, tile indices and counters are integers; clock readings and opacities are
    real numbers; a tile priority is a natural number or \<open>\<infinity>\<close> (\<open>Number.POSITIVE_INFINITY\<close>).
    JavaScript numbers are exact on integers below \<open>2 ** 53\<close>, which the counters never reach in
    practice; the rounding of floating-point arithmetic on clock readings and opacities, and
    the values \<open>NaN\<close> and \<open>\<plusminus>Infinity\<close> as option values, are not modelled.
  \<^item> The readonly fields fixed by the constructor form the record \<open>config\<close>; the mutable fields
    form \<open>layerState\<close>. The field \<open>requests\<close> of the state is the environment's part: the load
    callbacks handed to the texture loader that have not run yet, each with the tile key and the
    attempt number its closure captured.
  \<^item> Meshes, textures, materials and the debug line overlays are rendering resources; of a
    mesh only the \<open>visible\<close> flag is kept, because the telemetry reads it.
\<close>

datatype tileState = Idle | Queued | Loading | Ready | Error

datatype tileId = TileId (tileX: int) (tileY: int) (tileZ: int)

type_synonym tileKey = "int \<times> int \<times> int"

definition tileKey :: "tileId \<Rightarrow> tileKey" where
  "tileKey t = (tileZ t, tileX t, tileY t)"

record activeTile =
  tileId :: tileId
  key :: tileKey
  state :: tileState
  attempts :: nat
  priority :: enat
  lastWantedFrame :: int
  lastTouchedFrame :: int
  currentOpacity :: real
  targetOpacity :: real
  lastFadeUpdateMs :: real
  meshVisible :: bool

record desiredTile =
  dTileId :: tileId
  dKey :: tileKey
  dPriority :: nat

text \<open>
  \<open>LayerViewState\<close>. The viewport bounds enter the layer only through
  \<open>mercatorBoundsToTileRange\<close>, whose floating-point part ends in four floors; the view state
  of the model carries these floors \<open>(xMin, xMax, yTop, yBottom)\<close> (before margin and clamping),
  or \<open>None\<close> when there are no usable bounds. The field \<open>stateKey\<close> of the source is a function
  of the other fields (\<open>stateKeyOf\<close> below).
\<close>

record layerViewState =
  zoom :: int
  centerX :: int
  centerY :: int
  vsTileRadius :: int
  viewportFloors :: "(int \<times> int \<times> int \<times> int) option"

type_synonym stateKey = "int \<times> int \<times> int \<times> int \<times> (int \<times> int \<times> int \<times> int) option"

record 'z lodLevelOf =
  lodZoom :: 'z
  lodMaxTiles :: "real option"
  lodMarginTiles :: "real option"
  lodUpdateThrottleMs :: "real option"
  lodZoomThrottleMs :: "real option"
  lodImmediateTileShift :: "real option"

type_synonym tileLodLevel = "int lodLevelOf"

record debugInfo =
  dbgEnabled :: bool
  dbgZoom :: int
  dbgCenterX :: int
  dbgCenterY :: int
  tileCount :: nat
  dbgTileRadius :: int
  queuedCount :: nat
  loadingCount :: nat
  readyCount :: nat
  errorCount :: nat
  dbgRequestedCount :: nat
  renderedCount :: nat
  renderedZoomStats :: "(int \<times> nat) list"

record config =
  enabled :: bool
  minZoom :: int
  maxZoom :: int
  tileRadius :: int
  maxDynamicTileRadius :: int
  opacity :: real
  subdomains :: "string list"
  maxConcurrentRequests :: int
  maxCachedTiles :: int
  retainFrames :: int
  retryLimit :: int
  updateThrottleMs :: int
  zoomThrottleMs :: int
  immediateTileShift :: int
  lodLevels :: "tileLodLevel list"
  debugOverlay :: bool
  enableProgressiveBlend :: bool
  fadeDurationMs :: int
  maxParentSearchDepth :: int

record layerState =
  tiles :: "activeTile list"
  queuedKeys :: "tileKey set"
  frame :: int
  stateKey :: "stateKey option"
  inflightCount :: int
  loadQueue :: "tileKey list"
  lastLayoutUpdateMs :: real
  pendingViewState :: "layerViewState option"
  appliedViewState :: "layerViewState option"
  activeDesiredTiles :: "desiredTile list"
  requestedCount :: nat
  debugInfo :: debugInfo
  requests :: "(tileKey \<times> nat) list"

section \<open>Pure helpers\<close>

text \<open>\<open>Math.round\<close> rounds half up; \<open>clampInt\<close> is \<open>max min (min max (round value))\<close>.\<close>

definition clampInt :: "real \<Rightarrow> int \<Rightarrow> int \<Rightarrow> int" where
  "clampInt v lo hi = max lo (min hi \<lfloor>v + 1 / 2\<rfloor>)"

definition clampNumber :: "real \<Rightarrow> real \<Rightarrow> real \<Rightarrow> real" where
  "clampNumber v lo hi = max lo (min hi v)"

text \<open>JavaScript's \<open>%\<close> truncates towards zero; \<open>wrapInt\<close> applies it twice.\<close>

definition jsRem :: "int \<Rightarrow> int \<Rightarrow> int" where
  "jsRem a b = sgn a * (\<bar>a\<bar> mod \<bar>b\<bar>)"

definition wrapInt :: "int \<Rightarrow> int \<Rightarrow> int" where
  "wrapInt v rng = jsRem (jsRem v rng + rng) rng"

definition shortestTileDx :: "int \<Rightarrow> int \<Rightarrow> int \<Rightarrow> int" where
  "shortestTileDx cx tx n = (let raw = \<bar>tx - cx\<bar> in min raw (n - raw))"

text \<open>
  \<open>Array.prototype.sort\<close> is stable; with a comparator that is a strict weak order its result is
  that of insertion sort. \<open>precedes a b\<close> says that the comparator is negative on \<open>(a, b)\<close>.
\<close>

fun insertBy :: "('a \<Rightarrow> 'a \<Rightarrow> bool) \<Rightarrow> 'a \<Rightarrow> 'a list \<Rightarrow> 'a list" where
  "insertBy precedes a [] = [a]"
| "insertBy precedes a (b # bs) = (if precedes b a then b # insertBy precedes a bs else a # b # bs)"

definition sortBy :: "('a \<Rightarrow> 'a \<Rightarrow> bool) \<Rightarrow> 'a list \<Rightarrow> 'a list" where
  "sortBy precedes as = foldr (insertBy precedes) as []"

section \<open>Load queue, dispatch and load callbacks\<close>

text \<open>
  \<open>createTileShell\<close> stamps the new tile with a fresh clock reading. Tiles are created only
  inside \<open>update\<close>, after the frame has read its own \<open>now\<close>, so that stamp is not earlier than
  \<open>now\<close>; its only reader is \<open>animateTileOpacity\<close> at the end of the same frame, which clamps
  \<open>now - lastFadeUpdateMs\<close> at \<open>0\<close> and overwrites the field with \<open>now\<close>. The model stamps the tile
  with the frame's \<open>now\<close>, which gives the same difference \<open>0\<close>.
\<close>

definition createTileShell :: "layerState \<Rightarrow> real \<Rightarrow> tileId \<Rightarrow> tileKey \<Rightarrow> activeTile" where
  "createTileShell s now tid k =
     \<lparr>tileId = tid, key = k, state = Idle, attempts = 0, priority = \<infinity>,
      lastWantedFrame = - 1, lastTouchedFrame = frame s, currentOpacity = 0,
      targetOpacity = 0, lastFadeUpdateMs = now, meshVisible = False\<rparr>"

definition getTile :: "activeTile list \<Rightarrow> tileKey \<Rightarrow> activeTile option" where
  "getTile ts k = find (\<lambda>t. key t = k) ts"

fun putTile :: "activeTile \<Rightarrow> activeTile list \<Rightarrow> activeTile list" where
  "putTile t [] = [t]"
| "putTile t (u # us) = (if key u = key t then t # us else u # putTile t us)"

definition deleteTile :: "tileKey \<Rightarrow> activeTile list \<Rightarrow> activeTile list" where
  "deleteTile k ts = filter (\<lambda>t. key t \<noteq> k) ts"

definition setTile :: "activeTile \<Rightarrow> layerState \<Rightarrow> layerState" where
  "setTile t s = s\<lparr>tiles := putTile t (tiles s)\<rparr>"

definition enqueueTileLoad :: "tileKey \<Rightarrow> layerState \<Rightarrow> layerState" where
  "enqueueTileLoad k s =
     (case getTile (tiles s) k of
        None \<Rightarrow> s
      | Some tile \<Rightarrow>
          if state tile = Loading \<or> state tile = Queued \<or> state tile = Ready then s
          else
            let s1 = setTile (tile\<lparr>state := Queued\<rparr>) s
            in if k \<in> queuedKeys s1 then s1
               else s1\<lparr>queuedKeys := insert k (queuedKeys s1), loadQueue := loadQueue s1 @ [k]\<rparr>)"

fun pickBestFrom ::
  "activeTile list \<Rightarrow> tileKey list \<Rightarrow> nat \<Rightarrow> nat \<Rightarrow> enat \<Rightarrow> nat" where
  "pickBestFrom ts [] i bestIndex bestPriority = bestIndex"
| "pickBestFrom ts (k # ks) i bestIndex bestPriority =
     (case getTile ts k of
        None \<Rightarrow> pickBestFrom ts ks (Suc i) bestIndex bestPriority
      | Some tile \<Rightarrow>
          if priority tile < bestPriority then pickBestFrom ts ks (Suc i) i (priority tile)
          else pickBestFrom ts ks (Suc i) bestIndex bestPriority)"

definition pickBestQueueIndex :: "layerState \<Rightarrow> nat" where
  "pickBestQueueIndex s = pickBestFrom (tiles s) (loadQueue s) 0 0 \<infinity>"

definition startTileLoad :: "activeTile \<Rightarrow> layerState \<Rightarrow> layerState" where
  "startTileLoad tile s =
     (let tile1 = tile\<lparr>state := Loading, attempts := attempts tile + 1\<rparr>;
          attempt = attempts tile1
      in (setTile tile1 s)
           \<lparr>inflightCount := inflightCount s + 1,
            requests := requests s @ [(key tile1, attempt)]\<rparr>)"

lemma pickBestFrom_bound:
  "bestIndex < i + length ks \<Longrightarrow> pickBestFrom ts ks i bestIndex bestPriority < i + length ks"
proof (induction ks arbitrary: i bestIndex bestPriority)
  case Nil
  then show ?case by simp
next
  case (Cons k ks)
  have a: "bestIndex < Suc i + length ks" using Cons.prems by simp
  have b: "i < Suc i + length ks" by simp
  show ?case
    using Cons.IH [OF a] Cons.IH [OF b] by (simp split: option.splits)
qed

lemma pickBestQueueIndex_bound:
  "loadQueue s \<noteq> [] \<Longrightarrow> pickBestQueueIndex s < length (loadQueue s)"
  using pickBestFrom_bound [of 0 0 "loadQueue s" "tiles s" \<infinity>]
  by (simp add: pickBestQueueIndex_def)

function processLoadQueue :: "config \<Rightarrow> layerState \<Rightarrow> layerState" where
  "processLoadQueue cfg s =
     (if inflightCount s < maxConcurrentRequests cfg \<and> loadQueue s \<noteq> [] then
        let nextIndex = pickBestQueueIndex s;
            k = loadQueue s ! nextIndex;
            s1 = s\<lparr>loadQueue := take nextIndex (loadQueue s) @ drop (Suc nextIndex) (loadQueue s),
                   queuedKeys := queuedKeys s - {k}\<rparr>
        in (case getTile (tiles s1) k of
              None \<Rightarrow> processLoadQueue cfg s1
            | Some tile \<Rightarrow>
                if state tile \<noteq> Queued then processLoadQueue cfg s1
                else processLoadQueue cfg (startTileLoad tile s1))
      else s)"
  by pat_completeness auto

termination
proof (relation "measure (\<lambda>(cfg, s). length (loadQueue s))")
  show "wf (measure (\<lambda>(cfg, s). length (loadQueue s)))" by simp
next
  fix cfg s nextIndex k s1
  assume "inflightCount s < maxConcurrentRequests cfg \<and> loadQueue s \<noteq> []"
    and "nextIndex = pickBestQueueIndex s"
    and "s1 = s\<lparr>loadQueue := take nextIndex (loadQueue s) @ drop (Suc nextIndex) (loadQueue s),
                  queuedKeys := queuedKeys s - {k}\<rparr>"
  then show "((cfg, s1), (cfg, s)) \<in> measure (\<lambda>(cfg, s). length (loadQueue s))"
    using pickBestQueueIndex_bound [of s] by auto
next
  fix cfg s nextIndex k s1 tile
  assume "inflightCount s < maxConcurrentRequests cfg \<and> loadQueue s \<noteq> []"
    and "nextIndex = pickBestQueueIndex s"
    and "s1 = s\<lparr>loadQueue := take nextIndex (loadQueue s) @ drop (Suc nextIndex) (loadQueue s),
                  queuedKeys := queuedKeys s - {k}\<rparr>"
  then show "((cfg, s1), (cfg, s)) \<in> measure (\<lambda>(cfg, s). length (loadQueue s))"
    using pickBestQueueIndex_bound [of s] by auto
next
  fix cfg s nextIndex k s1 tile
  assume "inflightCount s < maxConcurrentRequests cfg \<and> loadQueue s \<noteq> []"
    and "nextIndex = pickBestQueueIndex s"
    and "s1 = s\<lparr>loadQueue := take nextIndex (loadQueue s) @ drop (Suc nextIndex) (loadQueue s),
                  queuedKeys := queuedKeys s - {k}\<rparr>"
  then show "((cfg, startTileLoad tile s1), (cfg, s)) \<in> measure (\<lambda>(cfg, s). length (loadQueue s))"
    using pickBestQueueIndex_bound [of s] by (auto simp: startTileLoad_def setTile_def Let_def)
qed

declare processLoadQueue.simps [simp del]

text \<open>
  The two callbacks that \<open>startTileLoad\<close> hands to the texture loader. \<open>k\<close> and \<open>attempt\<close> are
  the closure's \<open>tile.key\<close> and \<open>attempt\<close>. Every path of either callback ends in
  \<open>processLoadQueue\<close>; the part before it is \<open>loadSucceededBody\<close> and \<open>loadFailedBody\<close>.
\<close>

definition releaseSlot :: "layerState \<Rightarrow> layerState" where
  "releaseSlot s = s\<lparr>inflightCount := max 0 (inflightCount s - 1)\<rparr>"

definition loadSucceededBody :: "tileKey \<Rightarrow> nat \<Rightarrow> layerState \<Rightarrow> layerState" where
  "loadSucceededBody k attempt s =
     (let s1 = releaseSlot s
      in case getTile (tiles s1) k of
           None \<Rightarrow> s1
         | Some current \<Rightarrow>
             if attempts current \<noteq> attempt then s1
             else setTile (current\<lparr>state := Ready\<rparr>) s1)"

definition loadSucceeded :: "config \<Rightarrow> tileKey \<Rightarrow> nat \<Rightarrow> layerState \<Rightarrow> layerState" where
  "loadSucceeded cfg k attempt s = processLoadQueue cfg (loadSucceededBody k attempt s)"

definition loadFailedBody :: "config \<Rightarrow> tileKey \<Rightarrow> nat \<Rightarrow> layerState \<Rightarrow> layerState" where
  "loadFailedBody cfg k attempt s =
     (let s1 = releaseSlot s
      in case getTile (tiles s1) k of
           None \<Rightarrow> s1
         | Some current \<Rightarrow>
             if attempts current \<noteq> attempt then s1
             else
               let s2 = setTile (current\<lparr>state := Error\<rparr>) s1
               in if int (attempts current) \<le> retryLimit cfg
                  then enqueueTileLoad (key current) (setTile (current\<lparr>state := Idle\<rparr>) s2)
                  else s2)"

definition loadFailed :: "config \<Rightarrow> tileKey \<Rightarrow> nat \<Rightarrow> layerState \<Rightarrow> layerState" where
  "loadFailed cfg k attempt s = processLoadQueue cfg (loadFailedBody cfg k attempt s)"

section \<open>Eviction\<close>

definition disposeTile :: "tileKey \<Rightarrow> layerState \<Rightarrow> layerState" where
  "disposeTile k s = s\<lparr>queuedKeys := queuedKeys s - {k}, tiles := deleteTile k (tiles s)\<rparr>"

text \<open>
  The comparator of the capacity pass:
  \<open>a.lastTouchedFrame - b.lastTouchedFrame || b.priority - a.priority\<close>. On two infinite
  priorities the difference is \<open>NaN\<close>, which \<open>sort\<close> treats as equal.
\<close>

definition evictBefore :: "activeTile \<Rightarrow> activeTile \<Rightarrow> bool" where
  "evictBefore a b \<longleftrightarrow>
     lastTouchedFrame a < lastTouchedFrame b \<or>
     (lastTouchedFrame a = lastTouchedFrame b \<and> priority b < priority a)"

fun evictLoop :: "config \<Rightarrow> activeTile list \<Rightarrow> layerState \<Rightarrow> layerState" where
  "evictLoop cfg [] s = s"
| "evictLoop cfg (tile # rest) s =
     (if int (length (tiles s)) \<le> maxCachedTiles cfg then s
      else evictLoop cfg rest (disposeTile (key tile) s))"

definition evictTiles :: "config \<Rightarrow> tileKey set \<Rightarrow> layerState \<Rightarrow> layerState" where
  "evictTiles cfg wantedKeys s =
     (let staleKeys =
            map key (filter (\<lambda>tile. \<not> (key tile \<in> wantedKeys) \<and> state tile \<noteq> Loading \<and>
                                   frame s - lastWantedFrame tile > retainFrames cfg) (tiles s));
          s1 = fold (\<lambda>k st. case getTile (tiles st) k of None \<Rightarrow> st | Some tile \<Rightarrow> disposeTile k st)
                 staleKeys s
      in if int (length (tiles s1)) \<le> maxCachedTiles cfg then s1
         else
           let evictCandidates =
                 sortBy evictBefore
                   (filter (\<lambda>tile. \<not> (key tile \<in> wantedKeys) \<and> state tile \<noteq> Loading)
                      (tiles s1))
           in evictLoop cfg evictCandidates s1)"

section \<open>Desired tile set\<close>

definition getLodLevel :: "config \<Rightarrow> int \<Rightarrow> tileLodLevel option" where
  "getLodLevel cfg z = find (\<lambda>level. lodZoom level = z) (lodLevels cfg)"

definition defaultMaxTilesByZoom :: "int \<Rightarrow> int" where
  "defaultMaxTilesByZoom z =
     (if z \<ge> 18 then 64 else if z \<ge> 16 then 81 else if z \<ge> 14 then 100
      else if z \<ge> 12 then 121 else if z \<ge> 10 then 144 else if z \<ge> 8 then 196
      else if z \<ge> 6 then 256 else if z \<ge> 4 then 324 else 400)"

text \<open>\<open>lod?.field ?? fallback\<close>, floored.\<close>

definition lodOr :: "tileLodLevel option \<Rightarrow> (tileLodLevel \<Rightarrow> real option) \<Rightarrow> int \<Rightarrow> int" where
  "lodOr lod field fallback =
     (case lod of
        None \<Rightarrow> fallback
      | Some level \<Rightarrow> (case field level of None \<Rightarrow> fallback | Some v \<Rightarrow> \<lfloor>v\<rfloor>))"

text \<open>The world has \<open>2 ** zoom\<close> columns; zoom levels are never negative.\<close>

definition worldSize :: "int \<Rightarrow> int" where
  "worldSize z = 2 ^ nat z"

definition mkDesired :: "int \<Rightarrow> int \<Rightarrow> int \<Rightarrow> int \<Rightarrow> int \<Rightarrow> desiredTile" where
  "mkDesired z tx ty dx dy =
     \<lparr>dTileId = TileId tx ty z, dKey = (z, tx, ty), dPriority = nat (dx * dx + dy * dy)\<rparr>"

definition collectDesiredTilesByRadius :: "int \<times> int \<Rightarrow> int \<Rightarrow> int \<Rightarrow> desiredTile list" where
  "collectDesiredTilesByRadius centerTile z radius =
     (let n = worldSize z
      in concat (map (\<lambda>dy.
           concat (map (\<lambda>dx.
             let ty = snd centerTile + dy
             in if ty < 0 \<or> ty \<ge> n then []
                else
                  let tx = wrapInt (fst centerTile + dx) n
                  in [mkDesired z tx ty (shortestTileDx (fst centerTile) tx n) dy])
             [- radius .. radius]))
           [- radius .. radius]))"

text \<open>
  \<open>mercatorBoundsToTileRange\<close> from the four floors: margin, clamping of the rows, and the
  \<open>null\<close> result when the clamped rows are inverted.
\<close>

definition mercatorBoundsToTileRange ::
  "(int \<times> int \<times> int \<times> int) \<Rightarrow> int \<Rightarrow> int \<Rightarrow> (int \<times> int \<times> int \<times> int) option" where
  "mercatorBoundsToTileRange floors z marginTiles =
     (case floors of (fxMin, fxMax, fyTop, fyBottom) \<Rightarrow>
        let n = worldSize z;
            minXRaw = fxMin - marginTiles;
            maxXRaw = fxMax + marginTiles;
            minY = clampInt (of_int (fyTop - marginTiles)) 0 (n - 1);
            maxY = clampInt (of_int (fyBottom + marginTiles)) 0 (n - 1)
        in if maxY < minY then None else Some (minXRaw, maxXRaw, minY, maxY))"

fun dedupByKey :: "tileKey list \<Rightarrow> desiredTile list \<Rightarrow> desiredTile list" where
  "dedupByKey seen [] = []"
| "dedupByKey seen (d # ds) =
     (if dKey d \<in> set seen then dedupByKey seen ds else d # dedupByKey (dKey d # seen) ds)"

definition collectDesiredTilesByViewport ::
  "int \<times> int \<Rightarrow> int \<Rightarrow> (int \<times> int \<times> int \<times> int) \<Rightarrow> int \<Rightarrow> desiredTile list" where
  "collectDesiredTilesByViewport centerTile z floors marginTiles =
     (case mercatorBoundsToTileRange floors z marginTiles of
        None \<Rightarrow> []
      | Some (minXRaw, maxXRaw, minY, maxY) \<Rightarrow>
          let n = worldSize z;
              width = maxXRaw - minXRaw + 1
          in if width \<ge> n then
               concat (map (\<lambda>ty. map (\<lambda>tx.
                   mkDesired z tx ty (shortestTileDx (fst centerTile) tx n) (ty - snd centerTile))
                 [0 .. n - 1]) [minY .. maxY])
             else
               dedupByKey []
                 (concat (map (\<lambda>rawY.
                    if rawY < 0 \<or> rawY \<ge> n then []
                    else map (\<lambda>rawX.
                           let tx = wrapInt rawX n
                           in mkDesired z tx rawY (shortestTileDx (fst centerTile) tx n)
                                (rawY - snd centerTile))
                         [minXRaw .. maxXRaw])
                  [minY .. maxY])))"

definition collectDesiredTiles :: "config \<Rightarrow> layerViewState \<Rightarrow> desiredTile list" where
  "collectDesiredTiles cfg vs =
     (let lod = getLodLevel cfg (zoom vs);
          marginTiles = max 0 (lodOr lod lodMarginTiles 1);
          maxTiles = max 16 (lodOr lod lodMaxTiles (defaultMaxTilesByZoom (zoom vs)));
          byViewport = (case viewportFloors vs of
                          None \<Rightarrow> []
                        | Some floors \<Rightarrow>
                            collectDesiredTilesByViewport (centerX vs, centerY vs) (zoom vs)
                              floors marginTiles);
          list = (if length byViewport > 0 then byViewport
                  else collectDesiredTilesByRadius (centerX vs, centerY vs) (zoom vs)
                         (vsTileRadius vs));
          sorted = sortBy (\<lambda>a b. dPriority a < dPriority b) list
      in if int (length sorted) > maxTiles then take (nat maxTiles) sorted else sorted)"


section \<open>Applying a view state\<close>

definition stateKeyOf :: "layerViewState \<Rightarrow> stateKey" where
  "stateKeyOf vs =
     (zoom vs, centerX vs, centerY vs, vsTileRadius vs,
      (case viewportFloors vs of
         None \<Rightarrow> None
       | Some floors \<Rightarrow> mercatorBoundsToTileRange floors (zoom vs) 0))"

text \<open>One round of the loop over the desired tiles in \<open>applyViewState\<close>.\<close>

definition wantTile ::
  "config \<Rightarrow> real \<Rightarrow> desiredTile \<Rightarrow> tileKey set \<times> layerState \<Rightarrow> tileKey set \<times> layerState" where
  "wantTile cfg now desired acc =
     (case acc of (wantedKeys, s) \<Rightarrow>
        let tile0 = (case getTile (tiles s) (dKey desired) of
                       Some t \<Rightarrow> t
                     | None \<Rightarrow> createTileShell s now (dTileId desired) (dKey desired));
            tile = tile0\<lparr>priority := enat (dPriority desired),
                         lastWantedFrame := frame s,
                         lastTouchedFrame := frame s\<rparr>;
            s1 = setTile tile s
        in (insert (dKey desired) wantedKeys,
            if state tile = Idle then enqueueTileLoad (key tile) s1
            else if state tile = Error \<and> int (attempts tile) \<le> retryLimit cfg
            then enqueueTileLoad (key tile) s1
            else s1))"

definition fadeUnwanted :: "config \<Rightarrow> tileKey set \<Rightarrow> layerState \<Rightarrow> layerState" where
  "fadeUnwanted cfg wantedKeys s =
     s\<lparr>tiles := map (\<lambda>tile.
          if key tile \<in> wantedKeys then tile
          else if frame s - lastWantedFrame tile > retainFrames cfg
               then tile\<lparr>targetOpacity := 0\<rparr>
               else tile) (tiles s)\<rparr>"

definition applyViewState :: "config \<Rightarrow> real \<Rightarrow> layerViewState \<Rightarrow> layerState \<Rightarrow> layerState" where
  "applyViewState cfg now vs s =
     (let desiredTiles = collectDesiredTiles cfg vs;
          s1 = s\<lparr>requestedCount := length desiredTiles, activeDesiredTiles := desiredTiles\<rparr>;
          (wantedKeys, s2) = fold (wantTile cfg now) desiredTiles ({}, s1);
          s3 = fadeUnwanted cfg wantedKeys s2;
          s4 = s3\<lparr>stateKey := Some (stateKeyOf vs)\<rparr>
      in evictTiles cfg wantedKeys s4)"

section \<open>Ancestor fallback and fading\<close>

text \<open>
  \<open>findReadyAncestor\<close>: the loop runs while \<open>i < maxParentSearchDepth\<close> and \<open>z > minZoom\<close>; the
  first argument counts the rounds that are left. The result is the key of the ready ancestor
  (the reference to it), the visited set and the state.
\<close>

fun findReadyAncestorLoop ::
  "config \<Rightarrow> real \<Rightarrow> nat \<Rightarrow> int \<Rightarrow> int \<Rightarrow> int \<Rightarrow> tileKey set \<Rightarrow> layerState
     \<Rightarrow> tileKey option \<times> tileKey set \<times> layerState" where
  "findReadyAncestorLoop cfg now 0 tx ty tz touched s = (None, touched, s)"
| "findReadyAncestorLoop cfg now (Suc rounds) tx ty tz touched s =
     (if \<not> (tz > minZoom cfg) then (None, touched, s)
      else
        let x' = tx div 2;
            y' = ty div 2;
            z' = tz - 1;
            k = (z', x', y');
            parent0 = (case getTile (tiles s) k of
                         Some t \<Rightarrow> t
                       | None \<Rightarrow> createTileShell s now (TileId x' y' z') k);
            s1 = setTile parent0 s;
            parent = (if k \<in> touched then parent0
                      else parent0\<lparr>lastWantedFrame := frame s, lastTouchedFrame := frame s\<rparr>);
            s2 = (if k \<in> touched then s1
                  else
                    let s1a = setTile parent s1
                    in if state parent = Idle then enqueueTileLoad (key parent) s1a
                       else if state parent = Error \<and> int (attempts parent) \<le> retryLimit cfg
                       then enqueueTileLoad (key parent) s1a
                       else s1a);
            touched' = insert k touched
        in if state parent = Ready then (Some k, touched', s2)
           else findReadyAncestorLoop cfg now rounds x' y' z' touched' s2)"

definition findReadyAncestor ::
  "config \<Rightarrow> real \<Rightarrow> tileId \<Rightarrow> tileKey set \<Rightarrow> layerState
     \<Rightarrow> tileKey option \<times> tileKey set \<times> layerState" where
  "findReadyAncestor cfg now tid touched s =
     findReadyAncestorLoop cfg now (nat (maxParentSearchDepth cfg))
       (tileX tid) (tileY tid) (tileZ tid) touched s"

definition animateTileOpacity :: "config \<Rightarrow> real \<Rightarrow> activeTile \<Rightarrow> activeTile" where
  "animateTileOpacity cfg now tile =
     (if \<not> enableProgressiveBlend cfg then
        let visible = targetOpacity tile > 1 / 1000
        in tile\<lparr>currentOpacity := (if visible then opacity cfg else 0),
                meshVisible := visible, lastFadeUpdateMs := now\<rparr>
      else
        let dt = max 0 (now - lastFadeUpdateMs tile);
            tile1 = tile\<lparr>lastFadeUpdateMs := now\<rparr>
        in if dt \<le> 0 then tile1
           else
             let cur = (if \<bar>targetOpacity tile1 - currentOpacity tile1\<bar> < 1 / 10000
                        then targetOpacity tile1
                        else currentOpacity tile1 +
                             (targetOpacity tile1 - currentOpacity tile1) *
                               min 1 (dt / of_int (fadeDurationMs cfg)));
                 cur' = clampNumber cur 0 (opacity cfg)
             in tile1\<lparr>currentOpacity := cur', meshVisible := cur' > 1 / 1000\<rparr>)"

text \<open>One round of the loop over \<open>_activeDesiredTiles\<close> in \<open>updateProgressiveVisibility\<close>.\<close>

definition visitDesired ::
  "config \<Rightarrow> real \<Rightarrow> desiredTile \<Rightarrow> tileKey set \<times> tileKey set \<times> layerState
     \<Rightarrow> tileKey set \<times> tileKey set \<times> layerState" where
  "visitDesired cfg now desired acc =
     (case acc of (visibleKeys, touched, s) \<Rightarrow>
        (case getTile (tiles s) (dKey desired) of
           None \<Rightarrow> (visibleKeys, touched, s)
         | Some current \<Rightarrow>
             if state current = Ready then
               (insert (key current) visibleKeys, touched,
                setTile (current\<lparr>lastWantedFrame := frame s\<rparr>) s)
             else
               (case findReadyAncestor cfg now (dTileId desired) touched s of
                  (None, touched', s') \<Rightarrow> (visibleKeys, touched', s')
                | (Some fk, touched', s') \<Rightarrow>
                    (case getTile (tiles s') fk of
                       None \<Rightarrow> (visibleKeys, touched', s')
                     | Some fallback \<Rightarrow>
                         (insert (key fallback) visibleKeys, touched',
                          setTile (fallback\<lparr>lastWantedFrame := frame s'\<rparr>) s')))))"

definition retarget :: "config \<Rightarrow> real \<Rightarrow> tileKey set \<Rightarrow> int \<Rightarrow> activeTile \<Rightarrow> activeTile" where
  "retarget cfg now visibleKeys fr tile =
     (let age = fr - lastWantedFrame tile;
          shouldBeVisible = (key tile \<in> visibleKeys \<and> state tile = Ready \<and> age \<le> retainFrames cfg)
      in animateTileOpacity cfg now
           (tile\<lparr>targetOpacity := (if shouldBeVisible then opacity cfg else 0)\<rparr>))"

definition updateProgressiveVisibility :: "config \<Rightarrow> real \<Rightarrow> layerState \<Rightarrow> layerState" where
  "updateProgressiveVisibility cfg now s =
     (case fold (visitDesired cfg now) (activeDesiredTiles s) ({}, {}, s) of
        (visibleKeys, touched, s1) \<Rightarrow>
          s1\<lparr>tiles := map (retarget cfg now visibleKeys (frame s1)) (tiles s1)\<rparr>)"


section \<open>Telemetry\<close>

definition isRendered :: "activeTile \<Rightarrow> bool" where
  "isRendered tile \<longleftrightarrow> state tile = Ready \<and> meshVisible tile \<and> currentOpacity tile > 1 / 1000"

definition bumpZoomStat :: "int \<Rightarrow> (int \<times> nat) list \<Rightarrow> (int \<times> nat) list" where
  "bumpZoomStat z stats =
     AList.update z ((case map_of stats z of None \<Rightarrow> 0 | Some c \<Rightarrow> c) + 1) stats"

definition refreshDebugInfo ::
  "config \<Rightarrow> int \<Rightarrow> int \<Rightarrow> int \<Rightarrow> int \<Rightarrow> layerState \<Rightarrow> layerState" where
  "refreshDebugInfo cfg z cx cy radius s =
     (let ts = tiles s;
          stats = fold (\<lambda>tile m. if isRendered tile then bumpZoomStat (tileZ (tileId tile)) m else m)
                    ts []
      in s\<lparr>debugInfo :=
            \<lparr>dbgEnabled = enabled cfg, dbgZoom = z, dbgCenterX = cx, dbgCenterY = cy,
             tileCount = length (tiles s), dbgTileRadius = radius,
             queuedCount = length (loadQueue s),
             loadingCount = length (filter (\<lambda>tile. state tile = Loading) ts),
             readyCount = length (filter (\<lambda>tile. state tile = Ready) ts),
             errorCount = length (filter (\<lambda>tile. state tile = Error) ts),
             dbgRequestedCount = requestedCount s,
             renderedCount = length (filter isRendered ts),
             renderedZoomStats = sortBy (\<lambda>a b. fst b < fst a) stats\<rparr>\<rparr>)"

section \<open>The per-frame update\<close>

definition shouldApplyNow :: "config \<Rightarrow> layerViewState \<Rightarrow> real \<Rightarrow> layerState \<Rightarrow> bool" where
  "shouldApplyNow cfg next nowMsValue s =
     (case (stateKey s, appliedViewState s) of
        (Some _, Some current) \<Rightarrow>
          let elapsed = nowMsValue - lastLayoutUpdateMs s;
              centerShift = \<bar>centerX next - centerX current\<bar> + \<bar>centerY next - centerY current\<bar>;
              zoomShift = \<bar>zoom next - zoom current\<bar>;
              radiusShift = \<bar>vsTileRadius next - vsTileRadius current\<bar>;
              lod = getLodLevel cfg (zoom next);
              updateThrottle = max 16 (lodOr lod lodUpdateThrottleMs (updateThrottleMs cfg));
              zoomThrottle = max updateThrottle (lodOr lod lodZoomThrottleMs (zoomThrottleMs cfg));
              immediate = max 1 (lodOr lod lodImmediateTileShift (immediateTileShift cfg))
          in if centerShift \<ge> immediate then True
             else if zoomShift \<ge> 2 then True
             else if zoomShift \<ge> 1 \<or> radiusShift \<ge> 1 then elapsed \<ge> of_int zoomThrottle
             else elapsed \<ge> of_int updateThrottle
      | _ \<Rightarrow> True)"

text \<open>The last three calls of \<open>update\<close>: queue drain, visibility pass, telemetry.\<close>

definition finishFrame :: "config \<Rightarrow> layerViewState \<Rightarrow> real \<Rightarrow> layerState \<Rightarrow> layerState" where
  "finishFrame cfg next now s =
     (let s1 = processLoadQueue cfg s;
          s2 = updateProgressiveVisibility cfg now s1;
          shown = (case appliedViewState s2 of None \<Rightarrow> next | Some a \<Rightarrow> a)
      in refreshDebugInfo cfg (zoom shown) (centerX shown) (centerY shown) (vsTileRadius shown) s2)"

text \<open>
  \<open>update\<close>. The first lines of the source turn the camera pose into \<open>nextViewState\<close> through
  the projection provider, which is not part of these sources; the model takes
  \<open>nextViewState\<close> and the clock reading \<open>now\<close> as its arguments.
\<close>

definition update :: "config \<Rightarrow> layerViewState \<Rightarrow> real \<Rightarrow> layerState \<Rightarrow> layerState" where
  "update cfg nextViewState now s =
     (if \<not> enabled cfg then s
      else
        let s1 = s\<lparr>frame := frame s + 1\<rparr>;
            (applyState, s2) =
              (if Some (stateKeyOf nextViewState) \<noteq> stateKey s1 \<and>
                  \<not> shouldApplyNow cfg nextViewState now s1
               then ((case appliedViewState s1 of None \<Rightarrow> nextViewState | Some a \<Rightarrow> a),
                     s1\<lparr>pendingViewState := Some nextViewState\<rparr>)
               else (case pendingViewState s1 of
                       Some p \<Rightarrow> (p, s1\<lparr>pendingViewState := None\<rparr>)
                     | None \<Rightarrow> (nextViewState, s1)));
            s3 = (if Some (stateKeyOf applyState) \<noteq> stateKey s2
                  then (applyViewState cfg now applyState s2)
                         \<lparr>lastLayoutUpdateMs := now, appliedViewState := Some applyState\<rparr>
                  else s2)
        in finishFrame cfg nextViewState now s3)"

definition dispose :: "layerState \<Rightarrow> layerState" where
  "dispose s =
     (let s1 = s\<lparr>loadQueue := [], queuedKeys := {}\<rparr>;
          s2 = fold (\<lambda>tile st. disposeTile (key tile) st) (tiles s1) s1
      in s2\<lparr>tiles := [], stateKey := None, pendingViewState := None, appliedViewState := None,
            activeDesiredTiles := [], requestedCount := 0\<rparr>)"

section \<open>Events\<close>

text \<open>
  The layer is driven by calls of \<open>update\<close> and \<open>dispose\<close> and by the texture loader running
  one of the outstanding callbacks; \<open>LoadSuccess i\<close> and \<open>LoadError i\<close> complete the \<open>i\<close>-th
  outstanding request.
\<close>

datatype event = Update layerViewState real | LoadSuccess nat | LoadError nat | Dispose

definition complete ::
  "(tileKey \<Rightarrow> nat \<Rightarrow> layerState \<Rightarrow> layerState) \<Rightarrow> nat \<Rightarrow> layerState \<Rightarrow> layerState" where
  "complete callback i s =
     (if i < length (requests s) then
        (case requests s ! i of
           (k, attempt) \<Rightarrow>
             callback k attempt (s\<lparr>requests := take i (requests s) @ drop (Suc i) (requests s)\<rparr>))
      else s)"

fun step :: "config \<Rightarrow> event \<Rightarrow> layerState \<Rightarrow> layerState" where
  "step cfg (Update v now) s = update cfg v now s"
| "step cfg (LoadSuccess i) s = complete (loadSucceeded cfg) i s"
| "step cfg (LoadError i) s = complete (loadFailed cfg) i s"
| "step cfg Dispose s = dispose s"

definition run :: "config \<Rightarrow> event list \<Rightarrow> layerState \<Rightarrow> layerState" where
  "run cfg es s = fold (step cfg) es s"


section \<open>Construction\<close>

text \<open>
  \<open>PlanarMapTileLayerOptions\<close>: every field is optional; a finite number is a real. The
  string form of \<open>subdomains\<close> is either a list (\<open>SubArray\<close>) or one string (\<open>SubString\<close>).
\<close>

datatype subdomainsInput = SubArray "string list" | SubString string

record options =
  optEnabled :: "bool option"
  optMinZoom :: "real option"
  optMaxZoom :: "real option"
  optTileRadius :: "real option"
  optMaxDynamicTileRadius :: "real option"
  optOpacity :: "real option"
  optSubdomains :: "subdomainsInput option"
  optMaxConcurrentRequests :: "real option"
  optMaxCachedTiles :: "real option"
  optRetainFrames :: "real option"
  optRetryLimit :: "real option"
  optUpdateThrottleMs :: "real option"
  optZoomThrottleMs :: "real option"
  optImmediateTileShift :: "real option"
  optLodLevels :: "real lodLevelOf list option"
  optDebugOverlay :: "bool option"
  optEnableProgressiveBlend :: "bool option"
  optFadeDurationMs :: "real option"
  optMaxParentSearchDepth :: "real option"

text \<open>\<open>value ?? fallback\<close>.\<close>

definition orElse :: "'a option \<Rightarrow> 'a \<Rightarrow> 'a" where
  "orElse v d = (case v of None \<Rightarrow> d | Some a \<Rightarrow> a)"

definition DEFAULT_SUBDOMAINS :: "string list" where
  "DEFAULT_SUBDOMAINS = [''a'', ''b'', ''c'']"

text \<open>
  Strings are lists of 8-bit characters (Latin-1). \<open>isSpace\<close> is what \<open>trim\<close> strips and
  \<open>\s\<close> matches among them: space, tab, line feed, vertical tab, form feed, carriage return
  and the no-break space.
\<close>

definition isSpace :: "char \<Rightarrow> bool" where
  "isSpace c \<longleftrightarrow>
     c \<in> set [CHR '' '', CHR 0x09, CHR 0x0A, CHR 0x0B, CHR 0x0C, CHR 0x0D, CHR 0xA0]"

definition isDigit :: "char \<Rightarrow> bool" where
  "isDigit c \<longleftrightarrow> c \<in> set ''0123456789''"

definition trim :: "string \<Rightarrow> string" where
  "trim str = rev (dropWhile isSpace (rev (dropWhile isSpace str)))"

fun splitOn :: "char \<Rightarrow> string \<Rightarrow> string list" where
  "splitOn sep [] = [[]]"
| "splitOn sep (c # cs) =
     (if c = sep then [] # splitOn sep cs
      else (case splitOn sep cs of [] \<Rightarrow> [[c]] | w # ws \<Rightarrow> (c # w) # ws))"

text \<open>The match of \<open>/^(\d+)\s*-\s*(\d+)$/\<close>: the two digit groups.\<close>

definition rangeMatch :: "string \<Rightarrow> (string \<times> string) option" where
  "rangeMatch str =
     (let d1 = takeWhile isDigit str;
          r1 = dropWhile isSpace (dropWhile isDigit str)
      in case r1 of
           [] \<Rightarrow> None
         | c # r2 \<Rightarrow>
             if c \<noteq> CHR ''-'' \<or> d1 = [] then None
             else
               let r3 = dropWhile isSpace r2;
                   d2 = takeWhile isDigit r3
               in if d2 \<noteq> [] \<and> dropWhile isDigit r3 = [] then Some (d1, d2) else None)"

definition digitValue :: "char \<Rightarrow> nat" where
  "digitValue c = of_char c - of_char CHR ''0''"

definition numberOfDigits :: "string \<Rightarrow> nat" where
  "numberOfDigits ds = foldl (\<lambda>n c. 10 * n + digitValue c) 0 ds"

function stringOfNat :: "nat \<Rightarrow> string" where
  "stringOfNat n =
     (if n < 10 then [char_of (of_char CHR ''0'' + n)]
      else stringOfNat (n div 10) @ [char_of (of_char CHR ''0'' + n mod 10)])"
  by pat_completeness auto

termination
  by (relation "measure id") auto


definition normalizeSubdomains :: "subdomainsInput option \<Rightarrow> string list" where
  "normalizeSubdomains input =
     (case input of
        Some (SubArray xs) \<Rightarrow>
          let out = filter (\<lambda>x. length x > 0) (map trim xs)
          in if length out > 0 then out else DEFAULT_SUBDOMAINS
      | Some (SubString str) \<Rightarrow>
          let trimmed = trim str
          in if length trimmed = 0 then DEFAULT_SUBDOMAINS
             else
               let ranged =
                     (case rangeMatch trimmed of
                        None \<Rightarrow> None
                      | Some (d1, d2) \<Rightarrow>
                          let start = numberOfDigits d1; finish = numberOfDigits d2
                          in if finish \<ge> start
                             then Some (map stringOfNat [start ..< Suc finish])
                             else None)
               in (case ranged of
                     Some out \<Rightarrow> if length out > 0 then out else DEFAULT_SUBDOMAINS
                   | None \<Rightarrow>
                       let split = filter (\<lambda>x. length x > 0) (map trim (splitOn CHR '','' trimmed))
                       in if length split > 0 then split
                          else if length trimmed > 1 then map (\<lambda>c. [c]) trimmed
                          else [trimmed])
      | None \<Rightarrow> DEFAULT_SUBDOMAINS)"

definition normalizeLodLevels :: "real lodLevelOf list option \<Rightarrow> tileLodLevel list" where
  "normalizeLodLevels levels =
     (case levels of
        None \<Rightarrow> []
      | Some ls \<Rightarrow>
          if length ls = 0 then []
          else
            sortBy (\<lambda>a b. lodZoom b < lodZoom a)
              (map (\<lambda>level. \<lparr>lodZoom = \<lfloor>lodZoom level\<rfloor>, lodMaxTiles = lodMaxTiles level,
                              lodMarginTiles = lodMarginTiles level,
                              lodUpdateThrottleMs = lodUpdateThrottleMs level,
                              lodZoomThrottleMs = lodZoomThrottleMs level,
                              lodImmediateTileShift = lodImmediateTileShift level\<rparr>)
                 (filter (\<lambda>level. lodZoom level = of_int \<lfloor>lodZoom level\<rfloor> \<and>
                                   lodZoom level \<ge> 0 \<and> lodZoom level \<le> 22) ls)))"

definition configOf :: "options \<Rightarrow> config" where
  "configOf opts =
     (let tr = max 0 \<lfloor>orElse (optTileRadius opts) 2\<rfloor>;
          ut = max 16 \<lfloor>orElse (optUpdateThrottleMs opts) 80\<rfloor>
      in \<lparr>enabled = orElse (optEnabled opts) True,
          minZoom = clampInt (orElse (optMinZoom opts) 0) 0 22,
          maxZoom = clampInt (orElse (optMaxZoom opts) 18) 0 22,
          tileRadius = tr,
          maxDynamicTileRadius = max tr \<lfloor>orElse (optMaxDynamicTileRadius opts) 10\<rfloor>,
          opacity = clampNumber (orElse (optOpacity opts) 1) 0 1,
          subdomains = normalizeSubdomains (optSubdomains opts),
          maxConcurrentRequests = max 1 \<lfloor>orElse (optMaxConcurrentRequests opts) 8\<rfloor>,
          maxCachedTiles = max 16 \<lfloor>orElse (optMaxCachedTiles opts) 600\<rfloor>,
          retainFrames = max 0 \<lfloor>orElse (optRetainFrames opts) 90\<rfloor>,
          retryLimit = max 0 \<lfloor>orElse (optRetryLimit opts) 2\<rfloor>,
          updateThrottleMs = ut,
          zoomThrottleMs = max ut \<lfloor>orElse (optZoomThrottleMs opts) 140\<rfloor>,
          immediateTileShift = max 1 \<lfloor>orElse (optImmediateTileShift opts) 2\<rfloor>,
          lodLevels = normalizeLodLevels (optLodLevels opts),
          debugOverlay = orElse (optDebugOverlay opts) True,
          enableProgressiveBlend = orElse (optEnableProgressiveBlend opts) True,
          fadeDurationMs = max 30 \<lfloor>orElse (optFadeDurationMs opts) 180\<rfloor>,
          maxParentSearchDepth = max 1 \<lfloor>orElse (optMaxParentSearchDepth opts) 6\<rfloor>\<rparr>)"

definition initialState :: "config \<Rightarrow> layerState" where
  "initialState cfg =
     \<lparr>tiles = [], queuedKeys = {}, frame = 0, stateKey = None, inflightCount = 0,
      loadQueue = [], lastLayoutUpdateMs = 0, pendingViewState = None,
      appliedViewState = None, activeDesiredTiles = [], requestedCount = 0,
      debugInfo = \<lparr>dbgEnabled = enabled cfg, dbgZoom = minZoom cfg, dbgCenterX = 0,
                    dbgCenterY = 0, tileCount = 0, dbgTileRadius = tileRadius cfg,
                    queuedCount = 0, loadingCount = 0, readyCount = 0, errorCount = 0,
                    dbgRequestedCount = 0, renderedCount = 0, renderedZoomStats = []\<rparr>,
      requests = []\<rparr>"

text \<open>
  The constructor. A \<open>throw\<close> of the source would be an \<open>Inl\<close> of the model; the constructor of
  the tile layer has none, so every path is an \<open>Inr\<close>. (The call of the projection provider
  for the origin only feeds the placement of the meshes and is not modelled.)
\<close>

datatype error = ConfigurationError

definition constructor :: "options \<Rightarrow> error + config \<times> layerState" where
  "constructor opts = (let cfg = configOf opts in Inr (cfg, initialState cfg))"


section \<open>Example inputs\<close>

text \<open>The constructor called without options, and a view state with no viewport bounds.\<close>

definition noOptions :: options where
  "noOptions =
     \<lparr>optEnabled = None, optMinZoom = None, optMaxZoom = None, optTileRadius = None,
      optMaxDynamicTileRadius = None, optOpacity = None, optSubdomains = None,
      optMaxConcurrentRequests = None, optMaxCachedTiles = None, optRetainFrames = None,
      optRetryLimit = None, optUpdateThrottleMs = None, optZoomThrottleMs = None,
      optImmediateTileShift = None, optLodLevels = None, optDebugOverlay = None,
      optEnableProgressiveBlend = None, optFadeDurationMs = None,
      optMaxParentSearchDepth = None\<rparr>"

definition viewAt :: "int \<Rightarrow> int \<Rightarrow> int \<Rightarrow> int \<Rightarrow> layerViewState" where
  "viewAt z cx cy radius =
     \<lparr>zoom = z, centerX = cx, centerY = cy, vsTileRadius = radius, viewportFloors = None\<rparr>"

section \<open>Predicates and projections used in the statements\<close>

text \<open>
  \<open>control\<close> forgets the tile cache and the load queue: two states with the same \<open>control\<close>
  agree on every other field.
\<close>

definition control :: "layerState \<Rightarrow> layerState" where
  "control s = s\<lparr>tiles := [], queuedKeys := {}, loadQueue := []\<rparr>"

text \<open>Taking the \<open>i\<close>-th key out of the load queue, as the \<open>splice\<close> in \<open>processLoadQueue\<close> does.\<close>

definition dequeue :: "nat \<Rightarrow> layerState \<Rightarrow> layerState" where
  "dequeue i s = s\<lparr>loadQueue := take i (loadQueue s) @ drop (Suc i) (loadQueue s),
                    queuedKeys := queuedKeys s - {loadQueue s ! i}\<rparr>"

text \<open>
  The in-flight counter equals the number of outstanding requests, and both are within the
  concurrency cap.
\<close>

definition slots :: "config \<Rightarrow> layerState \<Rightarrow> bool" where
  "slots cfg s \<longleftrightarrow>
     inflightCount s = int (length (requests s)) \<and>
     int (length (requests s)) \<le> max 0 (maxConcurrentRequests cfg)"

definition tileStep :: "config \<Rightarrow> int \<Rightarrow> activeTile \<Rightarrow> activeTile \<Rightarrow> bool" where
  "tileStep cfg fr t t' \<longleftrightarrow>
     key t' = key t \<and> tileId t' = tileId t \<and> attempts t' = attempts t \<and>
     (state t' = state t \<or>
      (state t' = Queued \<and> (state t = Idle \<or> (state t = Error \<and> int (attempts t) \<le> retryLimit cfg)))) \<and>
     (lastWantedFrame t' = lastWantedFrame t \<or> lastWantedFrame t' = fr)"

definition evolves :: "config \<Rightarrow> int \<Rightarrow> activeTile list \<Rightarrow> activeTile list \<Rightarrow> bool" where
  "evolves cfg fr ts ts' \<longleftrightarrow>
     (\<forall>k t. getTile ts k = Some t \<longrightarrow> (\<exists>t'. getTile ts' k = Some t' \<and> tileStep cfg fr t t')) \<and>
     (\<forall>k t'. getTile ts k = None \<longrightarrow> getTile ts' k = Some t' \<longrightarrow>
        attempts t' = 0 \<and> (state t' = Idle \<or> state t' = Queued))"

text \<open>One round of the ancestor walk.\<close>

definition ancestorRound ::
  "config \<Rightarrow> real \<Rightarrow> tileKey \<Rightarrow> tileId \<Rightarrow> tileKey set \<Rightarrow> layerState \<Rightarrow> layerState" where
  "ancestorRound cfg now k tid touched s =
     (let parent0 = (case getTile (tiles s) k of Some t \<Rightarrow> t | None \<Rightarrow> createTileShell s now tid k);
          s1 = setTile parent0 s;
          parent = (if k \<in> touched then parent0
                    else parent0\<lparr>lastWantedFrame := frame s, lastTouchedFrame := frame s\<rparr>)
      in if k \<in> touched then s1
         else
           let s1a = setTile parent s1
           in if state parent = Idle then enqueueTileLoad (key parent) s1a
              else if state parent = Error \<and> int (attempts parent) \<le> retryLimit cfg
              then enqueueTileLoad (key parent) s1a
              else s1a)"

definition ancestorParent :: "real \<Rightarrow> tileKey \<Rightarrow> tileId \<Rightarrow> layerState \<Rightarrow> activeTile" where
  "ancestorParent now k tid s =
     (case getTile (tiles s) k of Some t \<Rightarrow> t | None \<Rightarrow> createTileShell s now tid k)"

definition parentTile :: "tileId \<Rightarrow> tileId" where
  "parentTile t = TileId (tileX t div 2) (tileY t div 2) (tileZ t - 1)"

fun ancestorOf :: "tileId \<Rightarrow> nat \<Rightarrow> tileId" where
  "ancestorOf t 0 = t"
| "ancestorOf t (Suc j) = ancestorOf (parentTile t) j"

definition readyAt :: "activeTile list \<Rightarrow> tileKey \<Rightarrow> bool" where
  "readyAt ts k \<longleftrightarrow> (case getTile ts k of None \<Rightarrow> False | Some t \<Rightarrow> state t = Ready)"

definition marked :: "tileKey \<Rightarrow> tileKey set \<Rightarrow> layerState \<Rightarrow> bool" where
  "marked k vis s \<longleftrightarrow>
     k \<in> vis \<and> (case getTile (tiles s) k of
                   None \<Rightarrow> False
                 | Some t \<Rightarrow> state t = Ready \<and> lastWantedFrame t = frame s)"

definition shrinks :: "activeTile list \<Rightarrow> activeTile list \<Rightarrow> bool" where
  "shrinks ts ts' \<longleftrightarrow> (\<forall>k. getTile ts' k = None \<or> getTile ts' k = getTile ts k)"

text \<open>A tile that is stuck in \<open>Error\<close> beyond the retry limit.\<close>

definition stuck :: "config \<Rightarrow> tileKey \<Rightarrow> nat \<Rightarrow> activeTile list \<Rightarrow> bool" where
  "stuck cfg k a ts \<longleftrightarrow>
     retryLimit cfg < int a \<and>
     (case getTile ts k of None \<Rightarrow> False | Some t \<Rightarrow> state t = Error \<and> attempts t = a)"

text \<open>The throttle decision of \<open>update\<close> and the conditional application, as functions.\<close>

definition deferred :: "config \<Rightarrow> layerViewState \<Rightarrow> real \<Rightarrow> layerState \<Rightarrow> bool" where
  "deferred cfg next now s \<longleftrightarrow>
     Some (stateKeyOf next) \<noteq> stateKey s \<and> \<not> shouldApplyNow cfg next now s"

definition selectViewState ::
  "config \<Rightarrow> layerViewState \<Rightarrow> real \<Rightarrow> layerState \<Rightarrow> layerViewState \<times> layerState" where
  "selectViewState cfg next now s =
     (if deferred cfg next now s
      then ((case appliedViewState s of None \<Rightarrow> next | Some a \<Rightarrow> a),
            s\<lparr>pendingViewState := Some next\<rparr>)
      else (case pendingViewState s of
              Some p \<Rightarrow> (p, s\<lparr>pendingViewState := None\<rparr>)
            | None \<Rightarrow> (next, s)))"

definition applySelected :: "config \<Rightarrow> real \<Rightarrow> layerViewState \<times> layerState \<Rightarrow> layerState" where
  "applySelected cfg now sel =
     (case sel of (applyState, s) \<Rightarrow>
        if Some (stateKeyOf applyState) \<noteq> stateKey s
        then (applyViewState cfg now applyState s)
               \<lparr>lastLayoutUpdateMs := now, appliedViewState := Some applyState\<rparr>
        else s)"

text \<open>One dispatch of the tile under \<open>k\<close> followed by the failure of that load.\<close>

definition dispatchAndFail :: "config \<Rightarrow> tileKey \<Rightarrow> layerState \<Rightarrow> layerState" where
  "dispatchAndFail cfg k s =
     (case getTile (tiles s) k of
        None \<Rightarrow> s
      | Some t \<Rightarrow> loadFailedBody cfg k (attempts t + 1) (startTileLoad t s))"

definition exampleTile :: "tileState \<Rightarrow> nat \<Rightarrow> activeTile" where
  "exampleTile st n =
     \<lparr>tileId = TileId 512 341 10, key = (10, 512, 341), state = st, attempts = n,
      priority = 0, lastWantedFrame = 0, lastTouchedFrame = 0, currentOpacity = 0,
      targetOpacity = 0, lastFadeUpdateMs = 0, meshVisible = False\<rparr>"

definition stateWith :: "config \<Rightarrow> activeTile list \<Rightarrow> layerState" where
  "stateWith cfg ts = (initialState cfg)\<lparr>tiles := ts\<rparr>"

text \<open>\<open>_stateKey\<close> is the key of \<open>_appliedViewState\<close>, or empty when there is none.\<close>

definition viewConsistent :: "layerState \<Rightarrow> bool" where
  "viewConsistent s \<longleftrightarrow> stateKey s = map_option stateKeyOf (appliedViewState s)"

definition throttleFields ::
  "layerState \<Rightarrow> stateKey option \<times> layerViewState option \<times> layerViewState option \<times> real" where
  "throttleFields s = (stateKey s, appliedViewState s, pendingViewState s, lastLayoutUpdateMs s)"

definition smallCacheOptions :: options where
  "smallCacheOptions = noOptions\<lparr>optMaxCachedTiles := Some 16\<rparr>"

text \<open>The queue drain dispatches only keys of the load queue and touches no other tile.\<close>

definition drainedFrom :: "layerState \<Rightarrow> layerState \<Rightarrow> bool" where
  "drainedFrom s0 s \<longleftrightarrow>
     set (loadQueue s) \<subseteq> set (loadQueue s0) \<and>
     (\<forall>r\<in>set (requests s). r \<in> set (requests s0) \<or> fst r \<in> set (loadQueue s0)) \<and>
     (\<forall>k. k \<notin> set (loadQueue s0) \<longrightarrow> getTile (tiles s) k = getTile (tiles s0) k)"

definition shallowOptions :: options where
  "shallowOptions = noOptions\<lparr>optTileRadius := Some 0, optMaxParentSearchDepth := Some 1\<rparr>"


text \<open>What the examples observe of a state: every cached tile with its state and attempts, the load
  queue, the outstanding requests and the telemetry's error count.\<close>

definition summary ::
  "layerState \<Rightarrow> (tileKey \<times> tileState \<times> nat) list \<times> tileKey list \<times> (tileKey \<times> nat) list \<times> nat" where
  "summary s =
     (map (\<lambda>t. (key t, state t, attempts t)) (tiles s), loadQueue s, requests s,
      errorCount (debugInfo s))"

definition crampedOptions :: options where
  "crampedOptions =
     noOptions\<lparr>optMinZoom := Some 10, optMaxZoom := Some 10, optTileRadius := Some 0,
                optMaxConcurrentRequests := Some 1, optRetainFrames := Some 0\<rparr>"

definition singleTileOptions :: options where
  "singleTileOptions = noOptions\<lparr>optMinZoom := Some 10, optTileRadius := Some 0\<rparr>"

text \<open>Every key of the queued set is in the load queue.\<close>

definition queueCovers :: "layerState \<Rightarrow> bool" where
  "queueCovers s \<longleftrightarrow> queuedKeys s \<subseteq> set (loadQueue s)"

text \<open>The cache holds an entry for every tile of the active desired set.\<close>

definition desiredCached :: "layerState \<Rightarrow> bool" where
  "desiredCached s \<longleftrightarrow> (\<forall>d\<in>set (activeDesiredTiles s). getTile (tiles s) (dKey d) \<noteq> None)"

definition keeps :: "activeTile list \<Rightarrow> activeTile list \<Rightarrow> bool" where
  "keeps ts ts' \<longleftrightarrow> (\<forall>k. getTile ts k \<noteq> None \<longrightarrow> getTile ts' k \<noteq> None)"

text \<open>
  The state in which \<open>update\<close> calls the visibility pass: the frame counter advanced, the
  selected view state applied, the load queue drained.
\<close>

definition beforeVisibility :: "config \<Rightarrow> layerViewState \<Rightarrow> real \<Rightarrow> layerState \<Rightarrow> layerState" where
  "beforeVisibility cfg next now s =
     processLoadQueue cfg
       (applySelected cfg now (selectViewState cfg next now (s\<lparr>frame := frame s + 1\<rparr>)))"

definition twoLevelOptions :: options where
  "twoLevelOptions = noOptions\<lparr>optTileRadius := Some 0, optMaxParentSearchDepth := Some 2\<rparr>"

definition twoLevelEvents :: "event list" where
  "twoLevelEvents =
     [Update (viewAt 10 512 341 0) 0, Update (viewAt 10 512 341 0) 16, LoadSuccess 2]"

text \<open>
  A stretch of events in which every \<open>update\<close> call is deferred by the throttle; load
  completions may fall between the calls.
\<close>

fun allDeferred :: "config \<Rightarrow> layerState \<Rightarrow> event list \<Rightarrow> bool" where
  "allDeferred cfg s [] = True"
| "allDeferred cfg s (e # es) =
     ((case e of
         Update v t \<Rightarrow> deferred cfg v t s
       | LoadSuccess i \<Rightarrow> True
       | LoadError i \<Rightarrow> True
       | Dispose \<Rightarrow> False) \<and>
      allDeferred cfg (step cfg e s) es)"

text \<open>The view state of the last \<open>update\<close> call among the events.\<close>

fun lastRequested :: "event list \<Rightarrow> layerViewState option" where
  "lastRequested [] = None"
| "lastRequested (e # es) =
     (case lastRequested es of
        Some v \<Rightarrow> Some v
      | None \<Rightarrow>
          (case e of
             Update v t \<Rightarrow> Some v
           | LoadSuccess i \<Rightarrow> None
           | LoadError i \<Rightarrow> None
           | Dispose \<Rightarrow> None))"

definition deferredEvents :: "event list" where
  "deferredEvents =
     [Update (viewAt 10 513 341 0) 50, LoadSuccess 0, Update (viewAt 10 512 342 0) 60]"


subsection \<open>The tile list as a map\<close>

lemma getTile_putTile: "getTile (putTile t ts) k = (if k = key t then Some t else getTile ts k)"
  by (induction ts) (auto simp: getTile_def)

lemma getTile_deleteTile: "getTile (deleteTile k ts) k' = (if k' = k then None else getTile ts k')"
  by (induction ts) (auto simp: getTile_def deleteTile_def)

lemma getTile_Some_key: "getTile ts k = Some t \<Longrightarrow> key t = k"
  by (induction ts) (auto simp: getTile_def split: if_splits)

lemma getTile_Some_mem: "getTile ts k = Some t \<Longrightarrow> t \<in> set ts"
  by (induction ts) (auto simp: getTile_def split: if_splits)

lemma getTile_None_iff: "getTile ts k = None \<longleftrightarrow> k \<notin> key ` set ts"
  by (induction ts) (auto simp: getTile_def)

lemma getTile_map: "(\<And>t. key (f t) = key t) \<Longrightarrow> getTile (map f ts) k = map_option f (getTile ts k)"
  by (induction ts) (auto simp: getTile_def)

lemma length_putTile:
  "length (putTile t ts) = (if key t \<in> key ` set ts then length ts else Suc (length ts))"
  by (induction ts) auto

lemma set_putTile: "set (putTile t ts) \<subseteq> insert t (set ts)"
  by (induction ts) auto

lemma putTile_mem: "t \<in> set (putTile t ts)"
  by (induction ts) auto

lemma set_insertBy: "set (insertBy p a bs) = insert a (set bs)"
  by (induction bs) auto

lemma set_sortBy: "set (sortBy p as) = set as"
  by (induction as) (auto simp: sortBy_def set_insertBy)

lemma length_insertBy: "length (insertBy p a bs) = Suc (length bs)"
  by (induction bs) auto

lemma length_sortBy: "length (sortBy p as) = length as"
  by (induction as) (auto simp: sortBy_def length_insertBy)

subsection \<open>What an operation leaves alone\<close>

lemma control_fields:
  "control s' = control s \<Longrightarrow>
     frame s' = frame s \<and> stateKey s' = stateKey s \<and> inflightCount s' = inflightCount s \<and>
     lastLayoutUpdateMs s' = lastLayoutUpdateMs s \<and> pendingViewState s' = pendingViewState s \<and>
     appliedViewState s' = appliedViewState s \<and> activeDesiredTiles s' = activeDesiredTiles s \<and>
     requestedCount s' = requestedCount s \<and> debugInfo s' = debugInfo s \<and> requests s' = requests s"
  by (cases s, cases s') (simp add: control_def)

lemma control_setTile [simp]: "control (setTile t s) = control s"
  by (simp add: control_def setTile_def)

lemma control_enqueueTileLoad [simp]: "control (enqueueTileLoad k s) = control s"
  by (simp add: control_def enqueueTileLoad_def setTile_def Let_def split: option.splits)

lemma control_disposeTile [simp]: "control (disposeTile k s) = control s"
  by (simp add: control_def disposeTile_def)

lemma control_wantTile: "control (snd (wantTile cfg now d (w, s))) = control s"
  by (simp add: wantTile_def Let_def)

lemma control_fold_wantTile: "control (snd (fold (wantTile cfg now) ds (w, s))) = control s"
proof (induction ds arbitrary: w s)
  case Nil
  then show ?case by simp
next
  case (Cons d ds)
  obtain w' s' where st: "wantTile cfg now d (w, s) = (w', s')" by (cases "wantTile cfg now d (w, s)")
  have "control s' = control s" using control_wantTile [of cfg now d w s] st by simp
  then show ?case using Cons.IH [of w' s'] st by simp
qed


lemma processLoadQueue_unfold:
  "processLoadQueue cfg s =
     (if inflightCount s < maxConcurrentRequests cfg \<and> loadQueue s \<noteq> [] then
        let i = pickBestQueueIndex s; k = loadQueue s ! i
        in (case getTile (tiles s) k of
              None \<Rightarrow> processLoadQueue cfg (dequeue i s)
            | Some tile \<Rightarrow>
                if state tile \<noteq> Queued then processLoadQueue cfg (dequeue i s)
                else processLoadQueue cfg (startTileLoad tile (dequeue i s)))
      else s)"
  by (subst processLoadQueue.simps) (simp add: Let_def dequeue_def split: option.splits)

lemma processLoadQueue_rule:
  assumes start: "P s"
    and deq: "\<And>s i. P s \<Longrightarrow> inflightCount s < maxConcurrentRequests cfg \<Longrightarrow> i < length (loadQueue s)
                \<Longrightarrow> P (dequeue i s)"
    and load: "\<And>s tile. P s \<Longrightarrow> inflightCount s < maxConcurrentRequests cfg \<Longrightarrow>
                 getTile (tiles s) (key tile) = Some tile \<Longrightarrow> state tile = Queued \<Longrightarrow>
                 P (startTileLoad tile s)"
  shows "P (processLoadQueue cfg s)"
  using assms
proof (induction cfg s rule: processLoadQueue.induct)
  case (1 cfg s)
  note Ps = "1.prems"(1) and deq = "1.prems"(2) and load = "1.prems"(3)
  show ?case
  proof (cases "inflightCount s < maxConcurrentRequests cfg \<and> loadQueue s \<noteq> []")
    case False
    then show ?thesis using Ps by (subst processLoadQueue.simps) auto
  next
    case True
    let ?i = "pickBestQueueIndex s"
    let ?k = "loadQueue s ! ?i"
    let ?s1 = "s\<lparr>loadQueue := take ?i (loadQueue s) @ drop (Suc ?i) (loadQueue s),
                  queuedKeys := queuedKeys s - {?k}\<rparr>"
    have eq: "?s1 = dequeue ?i s" by (simp add: dequeue_def)
    have i: "?i < length (loadQueue s)" using True pickBestQueueIndex_bound by simp
    have P1: "P ?s1" unfolding eq by (rule deq [OF Ps conjunct1 [OF True] i])
    have infl: "inflightCount ?s1 < maxConcurrentRequests cfg" using True by simp
    show ?thesis
    proof (cases "getTile (tiles s) ?k")
      case None
      have g: "getTile (tiles ?s1) ?k = None" using None by simp
      have "P (processLoadQueue cfg ?s1)"
        by (rule "1.IH"(1) [OF True refl refl refl g P1 deq load])
      then show ?thesis using True None
        by (subst processLoadQueue.simps) (simp add: Let_def)
    next
      case (Some tile)
      have kt: "key tile = ?k" using Some by (rule getTile_Some_key)
      show ?thesis
      proof (cases "state tile \<noteq> Queued")
        case neq: True
        have g: "getTile (tiles ?s1) ?k = Some tile" using Some by simp
        have "P (processLoadQueue cfg ?s1)"
          by (rule "1.IH"(2) [OF True refl refl refl g neq P1 deq load])
        then show ?thesis using True Some neq
          by (subst processLoadQueue.simps) (simp add: Let_def)
      next
        case False
        have g: "getTile (tiles ?s1) ?k = Some tile" using Some by simp
        have g': "getTile (tiles ?s1) (key tile) = Some tile" using Some kt by simp
        have q: "state tile = Queued" using False by simp
        have P2: "P (startTileLoad tile ?s1)"
          by (rule load [OF P1 infl g' q])
        have "P (processLoadQueue cfg (startTileLoad tile ?s1))"
          by (rule "1.IH"(3) [OF True refl refl refl g False P2 deq load])
        then show ?thesis using True Some False
          by (subst processLoadQueue.simps) (simp add: Let_def)
      qed
    qed
  qed
qed

lemma slots_control: "control s' = control s \<Longrightarrow> slots cfg s' = slots cfg s"
  using control_fields [of s' s] by (simp add: slots_def)

lemma slots_processLoadQueue: "slots cfg s \<Longrightarrow> slots cfg (processLoadQueue cfg s)"
  by (rule processLoadQueue_rule)
     (auto simp: slots_def dequeue_def startTileLoad_def setTile_def Let_def)


lemma control_upd [simp]:
  "control (s\<lparr>tiles := ts\<rparr>) = control s"
  "control (s\<lparr>queuedKeys := qk\<rparr>) = control s"
  "control (s\<lparr>loadQueue := lq\<rparr>) = control s"
  by (simp_all add: control_def)

lemma control_cong_fields:
  "control s' = control s \<Longrightarrow> control (s'\<lparr>stateKey := a\<rparr>) = control (s\<lparr>stateKey := a\<rparr>)"
  "control s' = control s \<Longrightarrow> control (s'\<lparr>debugInfo := d\<rparr>) = control (s\<lparr>debugInfo := d\<rparr>)"
  "control s' = control s \<Longrightarrow>
     control (s'\<lparr>lastLayoutUpdateMs := t, appliedViewState := av\<rparr>) =
     control (s\<lparr>lastLayoutUpdateMs := t, appliedViewState := av\<rparr>)"
  by (cases s, cases s', simp add: control_def)+

lemma control_fadeUnwanted [simp]: "control (fadeUnwanted cfg w s) = control s"
  by (simp add: fadeUnwanted_def)

lemma control_evictLoop [simp]: "control (evictLoop cfg cs s) = control s"
  by (induction cs arbitrary: s) auto

lemma control_fold_stale:
  "control (fold (\<lambda>k st. case getTile (tiles st) k of None \<Rightarrow> st | Some tile \<Rightarrow> disposeTile k st) ks s) = control s"
  by (induction ks arbitrary: s) (auto split: option.splits)

lemma control_evictTiles [simp]: "control (evictTiles cfg w s) = control s"
  by (simp add: evictTiles_def Let_def control_fold_stale)

lemma control_applyViewState:
  "control (applyViewState cfg now v s) =
   control (s\<lparr>requestedCount := length (collectDesiredTiles cfg v),
              activeDesiredTiles := collectDesiredTiles cfg v,
              stateKey := Some (stateKeyOf v)\<rparr>)"
proof -
  let ?ds = "collectDesiredTiles cfg v"
  let ?s1 = "s\<lparr>requestedCount := length ?ds, activeDesiredTiles := ?ds\<rparr>"
  obtain w s2 where f: "fold (wantTile cfg now) ?ds ({}, ?s1) = (w, s2)"
    by (cases "fold (wantTile cfg now) ?ds ({}, ?s1)")
  have c2: "control s2 = control ?s1"
    using control_fold_wantTile [of cfg now ?ds "{}" ?s1] f by simp
  have "applyViewState cfg now v s = evictTiles cfg w ((fadeUnwanted cfg w s2)\<lparr>stateKey := Some (stateKeyOf v)\<rparr>)"
    using f by (simp add: applyViewState_def Let_def)
  then have "control (applyViewState cfg now v s) = control ((fadeUnwanted cfg w s2)\<lparr>stateKey := Some (stateKeyOf v)\<rparr>)"
    by simp
  also have "\<dots> = control (s2\<lparr>stateKey := Some (stateKeyOf v)\<rparr>)"
    by (rule control_cong_fields) simp
  also have "\<dots> = control (?s1\<lparr>stateKey := Some (stateKeyOf v)\<rparr>)"
    by (rule control_cong_fields) (rule c2)
  finally show ?thesis by simp
qed

lemma control_findReadyAncestorLoop:
  "control (snd (snd (findReadyAncestorLoop cfg now n tx ty tz touched s))) = control s"
proof (induction n arbitrary: tx ty tz touched s)
  case 0
  then show ?case by simp
next
  case (Suc n)
  show ?case
    by (simp add: Let_def Suc.IH)
qed

lemma control_visitDesired:
  "control (snd (snd (visitDesired cfg now d (vis, touched, s)))) = control s"
proof (cases "findReadyAncestor cfg now (dTileId d) touched s")
  case (fields fk touched' s')
  have "control s' = control s"
    using control_findReadyAncestorLoop [of cfg now "nat (maxParentSearchDepth cfg)" "tileX (dTileId d)" "tileY (dTileId d)" "tileZ (dTileId d)" touched s] fields
    by (simp add: findReadyAncestor_def)
  then show ?thesis using fields
    by (simp add: visitDesired_def split: option.splits)
qed

lemma control_fold_visitDesired:
  "control (snd (snd (fold (visitDesired cfg now) ds (vis, touched, s)))) = control s"
proof (induction ds arbitrary: vis touched s)
  case Nil
  then show ?case by simp
next
  case (Cons d ds)
  obtain vis' touched' s' where st: "visitDesired cfg now d (vis, touched, s) = (vis', touched', s')"
    by (cases "visitDesired cfg now d (vis, touched, s)")
  have "control s' = control s" using control_visitDesired [of cfg now d vis touched s] st by simp
  then show ?case using Cons.IH [of vis' touched' s'] st by simp
qed

lemma control_updateProgressiveVisibility [simp]:
  "control (updateProgressiveVisibility cfg now s) = control s"
proof -
  obtain vis touched s1 where f: "fold (visitDesired cfg now) (activeDesiredTiles s) ({}, {}, s) = (vis, touched, s1)"
    by (cases "fold (visitDesired cfg now) (activeDesiredTiles s) ({}, {}, s)")
  have "control s1 = control s"
    using control_fold_visitDesired [of cfg now "activeDesiredTiles s" "{}" "{}" s] f by simp
  then show ?thesis using f by (simp add: updateProgressiveVisibility_def)
qed

lemma slots_applyViewState: "slots cfg (applyViewState cfg now v s) = slots cfg s"
  using control_fields [OF control_applyViewState [of cfg now v s]]
  by (simp add: slots_def)

lemma slots_refreshDebugInfo: "slots cfg (refreshDebugInfo cfg z cx cy r s) = slots cfg s"
  by (simp add: slots_def refreshDebugInfo_def Let_def)

lemma slots_finishFrame: "slots cfg s \<Longrightarrow> slots cfg (finishFrame cfg v now s)"
  using slots_control [OF control_updateProgressiveVisibility, of cfg cfg now "processLoadQueue cfg s"]
  by (simp add: finishFrame_def Let_def slots_refreshDebugInfo slots_processLoadQueue)

lemma slots_update: "slots cfg s \<Longrightarrow> slots cfg (update cfg v now s)"
proof -
  assume a: "slots cfg s"
  have f: "\<And>s'. slots cfg (s'\<lparr>frame := x\<rparr>) = slots cfg s'" for x by (simp add: slots_def)
  have p: "\<And>s'. slots cfg (s'\<lparr>pendingViewState := x\<rparr>) = slots cfg s'" for x by (simp add: slots_def)
  have l: "\<And>s'. slots cfg (s'\<lparr>lastLayoutUpdateMs := x, appliedViewState := y\<rparr>) = slots cfg s'" for x y
    by (simp add: slots_def)
  show ?thesis using a
    by (auto simp: update_def Let_def f p l slots_applyViewState split: option.splits intro!: slots_finishFrame)
qed


lemma inflight_loadSucceededBody:
  "inflightCount (loadSucceededBody k a s) = max 0 (inflightCount s - 1)"
  by (simp add: loadSucceededBody_def releaseSlot_def setTile_def Let_def split: option.splits)

lemma requests_loadSucceededBody: "requests (loadSucceededBody k a s) = requests s"
  by (simp add: loadSucceededBody_def releaseSlot_def setTile_def Let_def split: option.splits)

lemma control_releaseSlot_enqueue:
  "control (enqueueTileLoad k s) = control s" by simp

lemma inflight_loadFailedBody:
  "inflightCount (loadFailedBody cfg k a s) = max 0 (inflightCount s - 1)"
proof -
  have e: "inflightCount (enqueueTileLoad k' s') = inflightCount s'" for k' s'
    using control_fields [OF control_enqueueTileLoad [of k' s']] by simp
  show ?thesis
    by (simp add: loadFailedBody_def releaseSlot_def setTile_def Let_def e split: option.splits)
qed

lemma requests_loadFailedBody: "requests (loadFailedBody cfg k a s) = requests s"
proof -
  have e: "requests (enqueueTileLoad k' s') = requests s'" for k' s'
    using control_fields [OF control_enqueueTileLoad [of k' s']] by simp
  show ?thesis
    by (simp add: loadFailedBody_def releaseSlot_def setTile_def Let_def e split: option.splits)
qed

lemma slots_complete:
  assumes "slots cfg s"
    and body: "\<And>k a s'. inflightCount (body k a s') = max 0 (inflightCount s' - 1) \<and>
                          requests (body k a s') = requests s'"
  shows "slots cfg (complete (\<lambda>k a s'. processLoadQueue cfg (body k a s')) i s)"
proof (cases "i < length (requests s)")
  case False
  then show ?thesis using assms(1) by (simp add: complete_def)
next
  case True
  obtain k a where r: "requests s ! i = (k, a)" by (cases "requests s ! i")
  let ?s' = "s\<lparr>requests := take i (requests s) @ drop (Suc i) (requests s)\<rparr>"
  have "slots cfg (body k a ?s')"
    using assms(1) True body [of k a ?s'] by (auto simp: slots_def)
  then show ?thesis using True r by (simp add: complete_def slots_processLoadQueue)
qed

lemma control_fold_dispose:
  "control (fold (\<lambda>tile st. disposeTile (key tile) st) ts s) = control s"
  by (induction ts arbitrary: s) auto

lemma slots_dispose: "slots cfg (dispose s) = slots cfg s"
  using control_fields [OF control_fold_dispose [of "tiles s" "s\<lparr>loadQueue := [], queuedKeys := {}\<rparr>"]]
  by (simp add: dispose_def Let_def slots_def)

lemma slots_step: "slots cfg s \<Longrightarrow> slots cfg (step cfg e s)"
proof (cases e)
  case (Update v now)
  assume "slots cfg s"
  then show ?thesis using Update by (simp add: slots_update)
next
  case (LoadSuccess i)
  assume a: "slots cfg s"
  have "loadSucceeded cfg = (\<lambda>k a s'. processLoadQueue cfg (loadSucceededBody k a s'))"
    by (simp add: loadSucceeded_def fun_eq_iff)
  then show ?thesis using LoadSuccess slots_complete [OF a, of loadSucceededBody i]
    by (simp add: inflight_loadSucceededBody requests_loadSucceededBody)
next
  case (LoadError i)
  assume a: "slots cfg s"
  have "loadFailed cfg = (\<lambda>k a s'. processLoadQueue cfg (loadFailedBody cfg k a s'))"
    by (simp add: loadFailed_def fun_eq_iff)
  then show ?thesis using LoadError slots_complete [OF a, of "loadFailedBody cfg" i]
    by (simp add: inflight_loadFailedBody requests_loadFailedBody)
next
  case Dispose
  assume "slots cfg s"
  then show ?thesis using Dispose by (simp add: slots_dispose)
qed

lemma slots_run: "slots cfg s \<Longrightarrow> slots cfg (run cfg es s)"
  unfolding run_def by (induction es arbitrary: s) (auto simp: slots_step)

lemma processLoadQueue_full:
  "maxConcurrentRequests cfg \<le> inflightCount s \<Longrightarrow> processLoadQueue cfg s = s"
  by (subst processLoadQueue.simps) simp

lemma maxConcurrentRequests_configOf: "1 \<le> maxConcurrentRequests (configOf opts)"
  by (simp add: configOf_def Let_def)

text \<open>
  C5. In every state reached from a constructed layer by any sequence of \<open>update\<close> calls, load
  completions (success or failure) and \<open>dispose\<close> calls, the number of outstanding loads equals
  the in-flight counter and is at most \<open>maxConcurrentRequests\<close>. The queue drain dispatches
  nothing when the counter has reached the cap, and both load callbacks release one slot
  before anything else.
\<close>

theorem inflight_never_exceeds_cap:
  assumes "constructor opts = Inr (cfg, s0)"
  shows "inflightCount (run cfg es s0) = int (length (requests (run cfg es s0))) \<and>
         int (length (requests (run cfg es s0))) \<le> maxConcurrentRequests cfg \<and>
         (\<forall>s. maxConcurrentRequests cfg \<le> inflightCount s \<longrightarrow> processLoadQueue cfg s = s) \<and>
         (\<forall>k a s. inflightCount (loadSucceededBody k a s) = max 0 (inflightCount s - 1) \<and>
                  inflightCount (loadFailedBody cfg k a s) = max 0 (inflightCount s - 1))"
proof -
  have c: "cfg = configOf opts" and s: "s0 = initialState cfg"
    using assms by (auto simp: constructor_def Let_def)
  have cap: "1 \<le> maxConcurrentRequests cfg" unfolding c by (rule maxConcurrentRequests_configOf)
  have "slots cfg s0" unfolding s by (simp add: slots_def initialState_def)
  then have "slots cfg (run cfg es s0)" by (rule slots_run)
  then show ?thesis using cap
    by (simp add: slots_def processLoadQueue_full inflight_loadSucceededBody inflight_loadFailedBody)
qed

theorem inflight_never_exceeds_cap_witness:
  "constructor noOptions = Inr (configOf noOptions, initialState (configOf noOptions)) \<and>
   inflightCount (run (configOf noOptions) [Update (viewAt 10 512 341 2) 0, LoadError 0]
                    (initialState (configOf noOptions))) =
     int (length (requests (run (configOf noOptions) [Update (viewAt 10 512 341 2) 0, LoadError 0]
                    (initialState (configOf noOptions))))) \<and>
   int (length (requests (run (configOf noOptions) [Update (viewAt 10 512 341 2) 0, LoadError 0]
                    (initialState (configOf noOptions))))) \<le> 8"
proof -
  have b: "constructor noOptions = Inr (configOf noOptions, initialState (configOf noOptions))"
    by (simp add: constructor_def Let_def)
  have m: "maxConcurrentRequests (configOf noOptions) = 8"
    by (simp add: configOf_def noOptions_def orElse_def Let_def)
  show ?thesis
    using b m inflight_never_exceeds_cap [OF b, of "[Update (viewAt 10 512 341 2) 0, LoadError 0]"]
    by simp
qed

lemma tileStep_refl [simp]: "tileStep cfg fr t t"
  by (simp add: tileStep_def)

lemma tileStep_trans: "tileStep cfg fr t t' \<Longrightarrow> tileStep cfg fr t' t'' \<Longrightarrow> tileStep cfg fr t t''"
  by (auto simp: tileStep_def)

lemma evolves_refl [simp]: "evolves cfg fr ts ts"
  by (simp add: evolves_def)

lemma evolves_old:
  "evolves cfg fr ts ts' \<Longrightarrow> getTile ts k = Some t \<Longrightarrow>
   \<exists>t'. getTile ts' k = Some t' \<and> tileStep cfg fr t t'"
  unfolding evolves_def by blast

lemma evolves_new:
  "evolves cfg fr ts ts' \<Longrightarrow> getTile ts k = None \<Longrightarrow> getTile ts' k = Some t' \<Longrightarrow>
   attempts t' = 0 \<and> (state t' = Idle \<or> state t' = Queued)"
  unfolding evolves_def by blast

lemma evolves_trans:
  assumes "evolves cfg fr ts ts'" and "evolves cfg fr ts' ts''"
  shows "evolves cfg fr ts ts''"
  unfolding evolves_def
proof (rule conjI; intro allI impI)
  fix k t assume "getTile ts k = Some t"
  then obtain t' where t': "getTile ts' k = Some t'" "tileStep cfg fr t t'"
    using evolves_old [OF assms(1)] by blast
  then obtain t'' where "getTile ts'' k = Some t''" "tileStep cfg fr t' t''"
    using evolves_old [OF assms(2)] by blast
  then show "\<exists>t''. getTile ts'' k = Some t'' \<and> tileStep cfg fr t t''"
    using t' tileStep_trans by blast
next
  fix k t'' assume n: "getTile ts k = None" and s: "getTile ts'' k = Some t''"
  show "attempts t'' = 0 \<and> (state t'' = Idle \<or> state t'' = Queued)"
  proof (cases "getTile ts' k")
    case None
    then show ?thesis using evolves_new [OF assms(2) None s] by simp
  next
    case (Some t')
    then have a: "attempts t' = 0 \<and> (state t' = Idle \<or> state t' = Queued)"
      using evolves_new [OF assms(1) n] by simp
    obtain u where "getTile ts'' k = Some u" "tileStep cfg fr t' u"
      using evolves_old [OF assms(2) Some] by blast
    then show ?thesis using a s by (auto simp: tileStep_def)
  qed
qed

lemma evolves_putTile_old:
  "getTile ts (key t') = Some t \<Longrightarrow> tileStep cfg fr t t' \<Longrightarrow> evolves cfg fr ts (putTile t' ts)"
  by (auto simp: evolves_def getTile_putTile)

lemma evolves_putTile_new:
  "getTile ts (key t') = None \<Longrightarrow> attempts t' = 0 \<Longrightarrow> state t' = Idle \<or> state t' = Queued \<Longrightarrow>
   evolves cfg fr ts (putTile t' ts)"
  by (auto simp: evolves_def getTile_putTile)

lemma evolves_map:
  assumes "\<And>t. tileStep cfg fr t (f t)"
  shows "evolves cfg fr ts (map f ts)"
proof -
  have k: "\<And>t. key (f t) = key t" using assms by (simp add: tileStep_def)
  show ?thesis using assms by (auto simp: evolves_def getTile_map [of f, OF k])
qed

lemma tiles_setTile [simp]: "tiles (setTile t s) = putTile t (tiles s)"
  by (simp add: setTile_def)

lemma frame_control: "control s' = control s \<Longrightarrow> frame s' = frame s"
  using control_fields by blast

lemma evolves_enqueueTileLoad:
  assumes "getTile (tiles s) k = Some t"
    and "state t = Idle \<or> (state t = Error \<and> int (attempts t) \<le> retryLimit cfg)"
  shows "evolves cfg fr (tiles s) (tiles (enqueueTileLoad k s))"
proof -
  have kt: "key t = k" using assms(1) by (rule getTile_Some_key)
  have "evolves cfg fr (tiles s) (putTile (t\<lparr>state := Queued\<rparr>) (tiles s))"
    by (rule evolves_putTile_old [where t = t]) (use assms kt in \<open>auto simp: tileStep_def\<close>)
  then show ?thesis using assms
    by (auto simp: enqueueTileLoad_def Let_def)
qed

lemma evolves_enqueueTileLoad_other:
  assumes "getTile (tiles s) k = Some t"
    and "state t = Loading \<or> state t = Queued \<or> state t = Ready"
  shows "tiles (enqueueTileLoad k s) = tiles s"
  using assms by (auto simp: enqueueTileLoad_def)

lemma evolves_enqueue_guarded:
  assumes "getTile (tiles s) k = Some t"
  shows "evolves cfg fr (tiles s)
           (tiles (if state t = Idle then enqueueTileLoad k s
                   else if state t = Error \<and> int (attempts t) \<le> retryLimit cfg
                   then enqueueTileLoad k s else s))"
  using evolves_enqueueTileLoad [OF assms, of cfg fr] by auto

lemma evolves_wantTile:
  "evolves cfg (frame s) (tiles s) (tiles (snd (wantTile cfg now d (w, s))))"
proof -
  let ?k = "dKey d"
  let ?tile0 = "case getTile (tiles s) ?k of Some t \<Rightarrow> t | None \<Rightarrow> createTileShell s now (dTileId d) ?k"
  let ?tile = "?tile0\<lparr>priority := enat (dPriority d), lastWantedFrame := frame s, lastTouchedFrame := frame s\<rparr>"
  let ?s1 = "setTile ?tile s"
  have key: "key ?tile = ?k"
    by (auto simp: createTileShell_def dest: getTile_Some_key split: option.splits)
  have e1: "evolves cfg (frame s) (tiles s) (tiles ?s1)"
  proof (cases "getTile (tiles s) ?k")
    case None
    then show ?thesis
      by (simp add: createTileShell_def evolves_putTile_new)
  next
    case (Some t)
    have "tileStep cfg (frame s) t ?tile" using Some by (simp add: tileStep_def)
    then show ?thesis using Some key
      by (simp add: evolves_putTile_old [where t = t])
  qed
  have g: "getTile (tiles ?s1) (key ?tile) = Some ?tile"
    by (simp add: getTile_putTile)
  have e2: "evolves cfg (frame s) (tiles ?s1)
              (tiles (if state ?tile = Idle then enqueueTileLoad (key ?tile) ?s1
                      else if state ?tile = Error \<and> int (attempts ?tile) \<le> retryLimit cfg
                      then enqueueTileLoad (key ?tile) ?s1 else ?s1))"
    by (rule evolves_enqueue_guarded [OF g])
  have "snd (wantTile cfg now d (w, s)) =
          (if state ?tile = Idle then enqueueTileLoad (key ?tile) ?s1
           else if state ?tile = Error \<and> int (attempts ?tile) \<le> retryLimit cfg
           then enqueueTileLoad (key ?tile) ?s1 else ?s1)"
    by (simp add: wantTile_def Let_def)
  then show ?thesis using evolves_trans [OF e1 e2] by simp
qed

lemma evolves_fold_wantTile:
  "evolves cfg (frame s) (tiles s) (tiles (snd (fold (wantTile cfg now) ds (w, s))))"
proof (induction ds arbitrary: w s)
  case Nil
  then show ?case by simp
next
  case (Cons d ds)
  obtain w' s' where st: "wantTile cfg now d (w, s) = (w', s')" by (cases "wantTile cfg now d (w, s)")
  have f: "frame s' = frame s"
    using frame_control [OF control_wantTile [of cfg now d w s]] st by simp
  have e1: "evolves cfg (frame s) (tiles s) (tiles s')"
    using evolves_wantTile [of cfg s now d w] st by simp
  have e2: "evolves cfg (frame s) (tiles s') (tiles (snd (fold (wantTile cfg now) ds (w', s'))))"
    using Cons.IH [of s' w'] f by simp
  show ?case using evolves_trans [OF e1 e2] st by simp
qed

lemma findReadyAncestorLoop_Suc:
  "findReadyAncestorLoop cfg now (Suc n) tx ty tz touched s =
     (if \<not> (tz > minZoom cfg) then (None, touched, s)
      else
        let k = (tz - 1, tx div 2, ty div 2);
            s2 = ancestorRound cfg now k (TileId (tx div 2) (ty div 2) (tz - 1)) touched s
        in if state (ancestorParent now k (TileId (tx div 2) (ty div 2) (tz - 1)) s) = Ready
           then (Some k, insert k touched, s2)
           else findReadyAncestorLoop cfg now n (tx div 2) (ty div 2) (tz - 1) (insert k touched) s2)"
  by (simp add: Let_def ancestorRound_def ancestorParent_def)

lemma control_ancestorRound [simp]: "control (ancestorRound cfg now k tid touched s) = control s"
  by (simp add: ancestorRound_def Let_def)

lemma evolves_ancestorRound:
  "evolves cfg (frame s) (tiles s) (tiles (ancestorRound cfg now k tid touched s))"
proof -
  let ?q = "case getTile (tiles s) k of Some t \<Rightarrow> t | None \<Rightarrow> createTileShell s now tid k"
  let ?s1 = "setTile ?q s"
  let ?p = "?q\<lparr>lastWantedFrame := frame s, lastTouchedFrame := frame s\<rparr>"
  let ?s1a = "setTile ?p ?s1"
  have key: "key ?q = k"
    by (auto simp: createTileShell_def dest: getTile_Some_key split: option.splits)
  have e1: "evolves cfg (frame s) (tiles s) (tiles ?s1)"
  proof (cases "getTile (tiles s) k")
    case None
    then show ?thesis by (simp add: createTileShell_def evolves_putTile_new)
  next
    case (Some t)
    then show ?thesis using key by (simp add: evolves_putTile_old [where t = t])
  qed
  have g1: "getTile (tiles ?s1) (key ?p) = Some ?q" by (simp add: getTile_putTile)
  have e2: "evolves cfg (frame s) (tiles ?s1) (tiles ?s1a)"
    using evolves_putTile_old [OF g1, of cfg "frame s"] by (simp add: tileStep_def)
  have g2: "getTile (tiles ?s1a) (key ?p) = Some ?p" by (simp add: getTile_putTile)
  have e3: "evolves cfg (frame s) (tiles ?s1a)
              (tiles (if state ?p = Idle then enqueueTileLoad (key ?p) ?s1a
                      else if state ?p = Error \<and> int (attempts ?p) \<le> retryLimit cfg
                      then enqueueTileLoad (key ?p) ?s1a else ?s1a))"
    by (rule evolves_enqueue_guarded [OF g2])
  show ?thesis
  proof (cases "k \<in> touched")
    case True
    then show ?thesis using e1 by (simp add: ancestorRound_def Let_def)
  next
    case False
    have "ancestorRound cfg now k tid touched s =
            (if state ?p = Idle then enqueueTileLoad (key ?p) ?s1a
             else if state ?p = Error \<and> int (attempts ?p) \<le> retryLimit cfg
             then enqueueTileLoad (key ?p) ?s1a else ?s1a)"
      using False by (simp add: ancestorRound_def Let_def)
    then show ?thesis using evolves_trans [OF e1 evolves_trans [OF e2 e3]] by simp
  qed
qed

lemma evolves_findReadyAncestorLoop:
  "evolves cfg (frame s) (tiles s)
     (tiles (snd (snd (findReadyAncestorLoop cfg now n tx ty tz touched s))))"
proof (induction n arbitrary: tx ty tz touched s)
  case 0
  then show ?case by simp
next
  case (Suc n)
  let ?k = "(tz - 1, tx div 2, ty div 2)"
  let ?tid = "TileId (tx div 2) (ty div 2) (tz - 1)"
  let ?s2 = "ancestorRound cfg now ?k ?tid touched s"
  have f: "frame ?s2 = frame s" by (rule frame_control) simp
  have e1: "evolves cfg (frame s) (tiles s) (tiles ?s2)" by (rule evolves_ancestorRound)
  have e2: "evolves cfg (frame s) (tiles ?s2)
              (tiles (snd (snd (findReadyAncestorLoop cfg now n (tx div 2) (ty div 2) (tz - 1)
                                  (insert ?k touched) ?s2))))"
    using Suc.IH [of ?s2 "tx div 2" "ty div 2" "tz - 1" "insert ?k touched"] f by simp
  show ?case
    unfolding findReadyAncestorLoop_Suc
    using e1 evolves_trans [OF e1 e2] by (simp add: Let_def)
qed

lemma readyAt_evolves: "evolves cfg fr ts ts' \<Longrightarrow> readyAt ts' k = readyAt ts k"
proof (cases "getTile ts k")
  case None
  assume e: "evolves cfg fr ts ts'"
  show ?thesis
  proof (cases "getTile ts' k")
    case n: None
    then show ?thesis using None by (simp add: readyAt_def)
  next
    case (Some t')
    then show ?thesis using evolves_new [OF e None Some] None by (auto simp: readyAt_def)
  qed
next
  case (Some t)
  assume e: "evolves cfg fr ts ts'"
  obtain t' where "getTile ts' k = Some t'" "tileStep cfg fr t t'"
    using evolves_old [OF e Some] by blast
  then show ?thesis using Some by (auto simp: readyAt_def tileStep_def)
qed

lemma tileZ_ancestorOf: "tileZ (ancestorOf t j) = tileZ t - int j"
  by (induction j arbitrary: t) (auto simp: parentTile_def)

lemma findReadyAncestorLoop_finds:
  assumes "j < n"
    and "minZoom cfg < tileZ t - int j"
    and "\<forall>i. 1 \<le> i \<and> i \<le> j \<longrightarrow> \<not> readyAt (tiles s) (tileKey (ancestorOf t i))"
    and "readyAt (tiles s) (tileKey (ancestorOf t (Suc j)))"
  shows "fst (findReadyAncestorLoop cfg now n (tileX t) (tileY t) (tileZ t) touched s) =
           Some (tileKey (ancestorOf t (Suc j)))"
  using assms
proof (induction j arbitrary: n t touched s)
  case 0
  obtain n' where n: "n = Suc n'" using "0.prems"(1) by (cases n) auto
  let ?k = "(tileZ t - 1, tileX t div 2, tileY t div 2)"
  have k: "tileKey (ancestorOf t (Suc 0)) = ?k" by (simp add: parentTile_def tileKey_def)
  have "state (ancestorParent now ?k (TileId (tileX t div 2) (tileY t div 2) (tileZ t - 1)) s) = Ready"
    using "0.prems"(4) unfolding k by (auto simp: readyAt_def ancestorParent_def split: option.splits)
  then show ?case using "0.prems"(2) unfolding n findReadyAncestorLoop_Suc k by (simp add: Let_def)
next
  case (Suc j)
  obtain n' where n: "n = Suc n'" and jn: "j < n'" using Suc.prems(1) by (cases n) auto
  let ?k = "(tileZ t - 1, tileX t div 2, tileY t div 2)"
  let ?tid = "TileId (tileX t div 2) (tileY t div 2) (tileZ t - 1)"
  let ?s2 = "ancestorRound cfg now ?k ?tid touched s"
  have p: "parentTile t = ?tid" by (simp add: parentTile_def)
  have k: "tileKey (ancestorOf t (Suc 0)) = ?k" by (simp add: parentTile_def tileKey_def)
  have "1 \<le> Suc 0 \<and> Suc 0 \<le> Suc j" by simp
  then have "\<not> readyAt (tiles s) (tileKey (ancestorOf t (Suc 0)))" using Suc.prems(3) by blast
  then have nr: "\<not> readyAt (tiles s) ?k" unfolding k .
  have st: "state (ancestorParent now ?k ?tid s) \<noteq> Ready"
    using nr by (auto simp: readyAt_def ancestorParent_def createTileShell_def split: option.splits)
  have z: "minZoom cfg < tileZ t" using Suc.prems(2) by simp
  have e: "evolves cfg (frame s) (tiles s) (tiles ?s2)" by (rule evolves_ancestorRound)
  have a1: "minZoom cfg < tileZ ?tid - int j" using Suc.prems(2) by simp
  have a2: "\<forall>i. 1 \<le> i \<and> i \<le> j \<longrightarrow> \<not> readyAt (tiles ?s2) (tileKey (ancestorOf ?tid i))"
  proof (intro allI impI)
    fix i assume i: "1 \<le> i \<and> i \<le> j"
    have "1 \<le> Suc i \<and> Suc i \<le> Suc j" using i by simp
    then have "\<not> readyAt (tiles s) (tileKey (ancestorOf t (Suc i)))" using Suc.prems(3) by blast
    then show "\<not> readyAt (tiles ?s2) (tileKey (ancestorOf ?tid i))"
      using readyAt_evolves [OF e] p by simp
  qed
  have a3: "readyAt (tiles ?s2) (tileKey (ancestorOf ?tid (Suc j)))"
    using Suc.prems(4) readyAt_evolves [OF e] p by simp
  have "fst (findReadyAncestorLoop cfg now n' (tileX ?tid) (tileY ?tid) (tileZ ?tid) (insert ?k touched) ?s2) =
          Some (tileKey (ancestorOf ?tid (Suc j)))"
    by (rule Suc.IH [OF jn a1 a2 a3])
  then show ?case using st z p unfolding n findReadyAncestorLoop_Suc by (simp add: Let_def)
qed

lemma marked_evolves:
  assumes "marked k vis s" and "vis \<subseteq> vis'" and "frame s' = frame s"
    and e: "evolves cfg (frame s) (tiles s) (tiles s')"
  shows "marked k vis' s'"
proof -
  obtain t where t: "getTile (tiles s) k = Some t" "state t = Ready" "lastWantedFrame t = frame s"
    using assms(1) by (auto simp: marked_def split: option.splits)
  obtain t' where "getTile (tiles s') k = Some t'" "tileStep cfg (frame s) t t'"
    using evolves_old [OF e t(1)] by blast
  then show ?thesis using t assms(1,2,3) by (auto simp: marked_def tileStep_def)
qed

lemma visitDesired_cases:
  "visitDesired cfg now d (vis, touched, s) =
     (case getTile (tiles s) (dKey d) of
        None \<Rightarrow> (vis, touched, s)
      | Some current \<Rightarrow>
          if state current = Ready then
            (insert (key current) vis, touched, setTile (current\<lparr>lastWantedFrame := frame s\<rparr>) s)
          else
            (let r = findReadyAncestor cfg now (dTileId d) touched s
             in case fst r of
                  None \<Rightarrow> (vis, fst (snd r), snd (snd r))
                | Some fk \<Rightarrow>
                    (case getTile (tiles (snd (snd r))) fk of
                       None \<Rightarrow> (vis, fst (snd r), snd (snd r))
                     | Some fallback \<Rightarrow>
                         (insert (key fallback) vis, fst (snd r),
                          setTile (fallback\<lparr>lastWantedFrame := frame (snd (snd r))\<rparr>) (snd (snd r))))))"
  by (cases "findReadyAncestor cfg now (dTileId d) touched s")
     (simp add: visitDesired_def Let_def split: option.splits)

lemma evolves_findReadyAncestor:
  "evolves cfg (frame s) (tiles s) (tiles (snd (snd (findReadyAncestor cfg now tid touched s))))"
  by (simp add: findReadyAncestor_def evolves_findReadyAncestorLoop)

lemma frame_findReadyAncestor:
  "frame (snd (snd (findReadyAncestor cfg now tid touched s))) = frame s"
  by (rule frame_control) (simp add: findReadyAncestor_def control_findReadyAncestorLoop)

lemma evolves_touch:
  assumes "getTile (tiles s) k = Some t"
  shows "evolves cfg (frame s) (tiles s) (tiles (setTile (t\<lparr>lastWantedFrame := frame s\<rparr>) s))"
proof -
  have "key t = k" using assms by (rule getTile_Some_key)
  then have "getTile (tiles s) (key (t\<lparr>lastWantedFrame := frame s\<rparr>)) = Some t" using assms by simp
  then show ?thesis
    using evolves_putTile_old [of "tiles s" "t\<lparr>lastWantedFrame := frame s\<rparr>" t cfg "frame s"]
    by (simp add: tileStep_def)
qed

lemma visitDesired_step:
  "frame (snd (snd (visitDesired cfg now d (vis, touched, s)))) = frame s \<and>
   evolves cfg (frame s) (tiles s) (tiles (snd (snd (visitDesired cfg now d (vis, touched, s))))) \<and>
   vis \<subseteq> fst (visitDesired cfg now d (vis, touched, s))"
proof -
  let ?r = "findReadyAncestor cfg now (dTileId d) touched s"
  let ?s' = "snd (snd ?r)"
  have f: "frame ?s' = frame s" by (rule frame_findReadyAncestor)
  have e: "evolves cfg (frame s) (tiles s) (tiles ?s')" by (rule evolves_findReadyAncestor)
  have e2: "getTile (tiles ?s') fk = Some fb \<Longrightarrow>
            evolves cfg (frame s) (tiles s) (tiles (setTile (fb\<lparr>lastWantedFrame := frame ?s'\<rparr>) ?s'))" for fk fb
    using evolves_trans [OF e] evolves_touch [of ?s' fk fb cfg] f by simp
  show ?thesis
    unfolding visitDesired_cases
    using f e e2 evolves_touch [of s "dKey d" _ cfg]
    by (auto simp: Let_def setTile_def split: option.splits)
qed

lemma fold_visitDesired_step:
  "frame (snd (snd (fold (visitDesired cfg now) ds (vis, touched, s)))) = frame s \<and>
   evolves cfg (frame s) (tiles s) (tiles (snd (snd (fold (visitDesired cfg now) ds (vis, touched, s))))) \<and>
   vis \<subseteq> fst (fold (visitDesired cfg now) ds (vis, touched, s))"
proof (induction ds arbitrary: vis touched s)
  case Nil
  then show ?case by simp
next
  case (Cons d ds)
  obtain vis' touched' s' where st: "visitDesired cfg now d (vis, touched, s) = (vis', touched', s')"
    by (cases "visitDesired cfg now d (vis, touched, s)")
  have a: "frame s' = frame s" "evolves cfg (frame s) (tiles s) (tiles s')" "vis \<subseteq> vis'"
    using visitDesired_step [of cfg now d vis touched s] st by simp_all
  have b: "frame (snd (snd (fold (visitDesired cfg now) ds (vis', touched', s')))) = frame s'"
    "evolves cfg (frame s') (tiles s') (tiles (snd (snd (fold (visitDesired cfg now) ds (vis', touched', s')))))"
    "vis' \<subseteq> fst (fold (visitDesired cfg now) ds (vis', touched', s'))"
    using Cons.IH [of vis' touched' s'] by simp_all
  show ?case using a b evolves_trans [OF a(2)] st by auto
qed

lemma marked_fold_visitDesired:
  assumes "marked k vis s"
  shows "marked k (fst (fold (visitDesired cfg now) ds (vis, touched, s)))
           (snd (snd (fold (visitDesired cfg now) ds (vis, touched, s))))"
  using fold_visitDesired_step [of cfg now ds vis touched s] marked_evolves [OF assms]
  by blast

lemma visitDesired_marks:
  assumes cur: "getTile (tiles s) (dKey d) = Some cur" "state cur \<noteq> Ready"
    and j: "int (Suc j) \<le> maxParentSearchDepth cfg" "minZoom cfg \<le> tileZ (dTileId d) - int (Suc j)"
    and near: "\<forall>i. 1 \<le> i \<and> i \<le> j \<longrightarrow> \<not> readyAt (tiles s) (tileKey (ancestorOf (dTileId d) i))"
    and rdy: "readyAt (tiles s) (tileKey (ancestorOf (dTileId d) (Suc j)))"
  shows "marked (tileKey (ancestorOf (dTileId d) (Suc j)))
           (fst (visitDesired cfg now d (vis, touched, s)))
           (snd (snd (visitDesired cfg now d (vis, touched, s))))"
proof -
  let ?fk = "tileKey (ancestorOf (dTileId d) (Suc j))"
  let ?r = "findReadyAncestor cfg now (dTileId d) touched s"
  let ?s' = "snd (snd ?r)"
  have jn: "j < nat (maxParentSearchDepth cfg)" using j(1) by simp
  have z: "minZoom cfg < tileZ (dTileId d) - int j" using j(2) by simp
  have r: "fst ?r = Some ?fk"
    unfolding findReadyAncestor_def by (rule findReadyAncestorLoop_finds [OF jn z near rdy])
  have f: "frame ?s' = frame s" by (rule frame_findReadyAncestor)
  have ev: "evolves cfg (frame s) (tiles s) (tiles ?s')" by (rule evolves_findReadyAncestor)
  have "readyAt (tiles ?s') ?fk"
    using readyAt_evolves [OF ev] rdy by simp
  then obtain fb where fb: "getTile (tiles ?s') ?fk = Some fb" "state fb = Ready"
    by (auto simp: readyAt_def split: option.splits)
  have kf: "key fb = ?fk" using fb(1) by (rule getTile_Some_key)
  have "visitDesired cfg now d (vis, touched, s) =
          (insert (key fb) vis, fst (snd ?r), setTile (fb\<lparr>lastWantedFrame := frame ?s'\<rparr>) ?s')"
    unfolding visitDesired_cases using cur r fb by (simp add: Let_def)
  then show ?thesis using kf fb(2) by (simp add: marked_def getTile_putTile setTile_def)
qed

lemma animateTileOpacity_fields:
  "key (animateTileOpacity cfg now t) = key t \<and> state (animateTileOpacity cfg now t) = state t \<and>
   lastWantedFrame (animateTileOpacity cfg now t) = lastWantedFrame t \<and>
   targetOpacity (animateTileOpacity cfg now t) = targetOpacity t \<and>
   attempts (animateTileOpacity cfg now t) = attempts t \<and>
   tileId (animateTileOpacity cfg now t) = tileId t"
  by (simp add: animateTileOpacity_def Let_def)

lemma retarget_fields:
  "key (retarget cfg now vis fr t) = key t \<and> state (retarget cfg now vis fr t) = state t \<and>
   lastWantedFrame (retarget cfg now vis fr t) = lastWantedFrame t \<and>
   attempts (retarget cfg now vis fr t) = attempts t \<and>
   tileId (retarget cfg now vis fr t) = tileId t \<and>
   targetOpacity (retarget cfg now vis fr t) =
     (if key t \<in> vis \<and> state t = Ready \<and> fr - lastWantedFrame t \<le> retainFrames cfg
      then opacity cfg else 0)"
  by (simp add: retarget_def Let_def animateTileOpacity_fields)

text \<open>
  The visibility pass on any state: let a desired tile have a cache entry that is not
  \<open>Ready\<close>, and let its \<open>j\<close>-th ancestor (\<open>j\<close> steps of \<open>x/2, y/2, z-1\<close>, with \<open>j\<close> at most
  \<open>maxParentSearchDepth\<close> and the ancestor's zoom not below \<open>minZoom\<close>) be \<open>Ready\<close> while no nearer
  ancestor is. Then after the pass that ancestor is still \<open>Ready\<close>, its \<open>targetOpacity\<close> is the
  configured opacity and its \<open>lastWantedFrame\<close> is the current frame.
\<close>

lemma visibility_marks_ready_ancestor:
  assumes "0 \<le> retainFrames cfg"
    and "d \<in> set (activeDesiredTiles s)"
    and "getTile (tiles s) (dKey d) = Some cur" and "state cur \<noteq> Ready"
    and "1 \<le> j" and "int j \<le> maxParentSearchDepth cfg"
    and "minZoom cfg \<le> tileZ (dTileId d) - int j"
    and "getTile (tiles s) (tileKey (ancestorOf (dTileId d) j)) = Some a" and "state a = Ready"
    and "\<forall>i. 1 \<le> i \<and> i < j \<longrightarrow> \<not> readyAt (tiles s) (tileKey (ancestorOf (dTileId d) i))"
  shows "\<exists>a'. getTile (tiles (updateProgressiveVisibility cfg now s))
                 (tileKey (ancestorOf (dTileId d) j)) = Some a' \<and>
              state a' = Ready \<and> targetOpacity a' = opacity cfg \<and> lastWantedFrame a' = frame s"
proof -
  obtain j' where j': "j = Suc j'" using assms(5) by (cases j) auto
  let ?fk = "tileKey (ancestorOf (dTileId d) j)"
  obtain ds1 ds2 where ds: "activeDesiredTiles s = ds1 @ d # ds2"
    using assms(2) by (meson split_list)
  obtain v1 t1 s1 where f1: "fold (visitDesired cfg now) ds1 ({}, {}, s) = (v1, t1, s1)"
    by (cases "fold (visitDesired cfg now) ds1 ({}, {}, s)")
  have s1: "frame s1 = frame s" "evolves cfg (frame s) (tiles s) (tiles s1)"
    using fold_visitDesired_step [of cfg now ds1 "{}" "{}" s] f1 by simp_all
  obtain cur1 where cur1: "getTile (tiles s1) (dKey d) = Some cur1" "tileStep cfg (frame s) cur cur1"
    using evolves_old [OF s1(2) assms(3)] by blast
  have nr: "state cur1 \<noteq> Ready" using cur1(2) assms(4) by (auto simp: tileStep_def)
  have rdy: "readyAt (tiles s1) (tileKey (ancestorOf (dTileId d) (Suc j')))"
    using readyAt_evolves [OF s1(2)] assms(8,9) j' by (simp add: readyAt_def)
  have near: "\<forall>i. 1 \<le> i \<and> i \<le> j' \<longrightarrow> \<not> readyAt (tiles s1) (tileKey (ancestorOf (dTileId d) i))"
    using readyAt_evolves [OF s1(2)] assms(10) j' by auto
  obtain v2 t2 s2 where f2: "visitDesired cfg now d (v1, t1, s1) = (v2, t2, s2)"
    by (cases "visitDesired cfg now d (v1, t1, s1)")
  have j1: "int (Suc j') \<le> maxParentSearchDepth cfg" using assms(6) j' by simp
  have j2: "minZoom cfg \<le> tileZ (dTileId d) - int (Suc j')" using assms(7) j' by simp
  have m2: "marked ?fk v2 s2"
    using visitDesired_marks [OF cur1(1) nr j1 j2 near rdy, where vis = v1 and touched = t1 and now = now]
      j' f2 by simp
  obtain v3 t3 s3 where f3: "fold (visitDesired cfg now) ds2 (v2, t2, s2) = (v3, t3, s3)"
    by (cases "fold (visitDesired cfg now) ds2 (v2, t2, s2)")
  have m3: "marked ?fk v3 s3"
    using marked_fold_visitDesired [OF m2, where cfg = cfg and now = now and ds = ds2 and touched = t2] f3 by simp
  have fr: "frame s3 = frame s"
    using fold_visitDesired_step [of cfg now ds2 v2 t2 s2] f3
      visitDesired_step [of cfg now d v1 t1 s1] f2 s1(1) by simp
  have whole: "fold (visitDesired cfg now) (activeDesiredTiles s) ({}, {}, s) = (v3, t3, s3)"
    using ds f1 f2 f3 by simp
  obtain t where t: "getTile (tiles s3) ?fk = Some t" "state t = Ready" "lastWantedFrame t = frame s3"
    "?fk \<in> v3"
    using m3 by (auto simp: marked_def split: option.splits)
  have kt: "key t = ?fk" using t(1) by (rule getTile_Some_key)
  have "getTile (tiles (updateProgressiveVisibility cfg now s)) ?fk =
          Some (retarget cfg now v3 (frame s3) t)"
    using whole t(1) by (simp add: updateProgressiveVisibility_def getTile_map retarget_fields)
  then show ?thesis using t kt fr assms(1) by (simp add: retarget_fields)
qed

lemma shrinks_refl [simp]: "shrinks ts ts"
  by (simp add: shrinks_def)

lemma shrinks_trans: "shrinks ts ts' \<Longrightarrow> shrinks ts' ts'' \<Longrightarrow> shrinks ts ts''"
  unfolding shrinks_def by metis

lemma shrinks_deleteTile: "shrinks ts (deleteTile k ts)"
  by (simp add: shrinks_def getTile_deleteTile)

lemma shrinks_disposeTile: "shrinks (tiles s) (tiles (disposeTile k s))"
  by (simp add: disposeTile_def shrinks_deleteTile)

lemma shrinks_evictLoop: "shrinks (tiles s) (tiles (evictLoop cfg cs s))"
proof (induction cs arbitrary: s)
  case Nil
  then show ?case by simp
next
  case (Cons c cs)
  show ?case
    using shrinks_trans [OF shrinks_disposeTile [of s "key c"] Cons.IH [of "disposeTile (key c) s"]]
    by simp
qed

lemma shrinks_fold_stale:
  "shrinks (tiles s)
     (tiles (fold (\<lambda>k st. case getTile (tiles st) k of None \<Rightarrow> st | Some tile \<Rightarrow> disposeTile k st) ks s))"
proof (induction ks arbitrary: s)
  case Nil
  then show ?case by simp
next
  case (Cons k ks)
  let ?s' = "case getTile (tiles s) k of None \<Rightarrow> s | Some tile \<Rightarrow> disposeTile k s"
  have "shrinks (tiles s) (tiles ?s')" by (simp add: shrinks_disposeTile split: option.splits)
  then show ?case using shrinks_trans [OF _ Cons.IH [of ?s']] by simp
qed

lemma shrinks_evictTiles: "shrinks (tiles s) (tiles (evictTiles cfg w s))"
  using shrinks_trans [OF shrinks_fold_stale shrinks_evictLoop]
  by (simp add: evictTiles_def Let_def shrinks_fold_stale)

lemma stuck_evolves: "evolves cfg fr ts ts' \<Longrightarrow> stuck cfg k a ts \<Longrightarrow> stuck cfg k a ts'"
proof -
  assume e: "evolves cfg fr ts ts'" and s: "stuck cfg k a ts"
  obtain t where t: "getTile ts k = Some t" "state t = Error" "attempts t = a" "retryLimit cfg < int a"
    using s by (auto simp: stuck_def split: option.splits)
  obtain t' where "getTile ts' k = Some t'" "tileStep cfg fr t t'"
    using evolves_old [OF e t(1)] by blast
  then show ?thesis using t by (auto simp: stuck_def tileStep_def)
qed

lemma evolves_fadeUnwanted: "evolves cfg fr (tiles s) (tiles (fadeUnwanted cfg' w s))"
  by (simp add: fadeUnwanted_def evolves_map tileStep_def)

lemma applyViewState_tiles:
  "\<exists>ts. evolves cfg (frame s) (tiles s) ts \<and> shrinks ts (tiles (applyViewState cfg now v s))"
proof -
  let ?ds = "collectDesiredTiles cfg v"
  let ?s1 = "s\<lparr>requestedCount := length ?ds, activeDesiredTiles := ?ds\<rparr>"
  obtain w s2 where f: "fold (wantTile cfg now) ?ds ({}, ?s1) = (w, s2)"
    by (cases "fold (wantTile cfg now) ?ds ({}, ?s1)")
  have e1: "evolves cfg (frame s) (tiles s) (tiles s2)"
    using evolves_fold_wantTile [of cfg ?s1 now ?ds "{}"] f by simp
  let ?s4 = "(fadeUnwanted cfg w s2)\<lparr>stateKey := Some (stateKeyOf v)\<rparr>"
  have e2: "evolves cfg (frame s) (tiles s2) (tiles ?s4)"
    using evolves_fadeUnwanted [of cfg "frame s" s2 cfg w] by simp
  have a: "applyViewState cfg now v s = evictTiles cfg w ?s4"
    using f by (simp add: applyViewState_def Let_def)
  show ?thesis
    using evolves_trans [OF e1 e2] shrinks_evictTiles [of ?s4 cfg w] unfolding a by blast
qed

lemma evolves_updateProgressiveVisibility:
  "evolves cfg (frame s) (tiles s) (tiles (updateProgressiveVisibility cfg now s))"
proof -
  obtain vis touched s1 where f: "fold (visitDesired cfg now) (activeDesiredTiles s) ({}, {}, s) = (vis, touched, s1)"
    by (cases "fold (visitDesired cfg now) (activeDesiredTiles s) ({}, {}, s)")
  have e1: "evolves cfg (frame s) (tiles s) (tiles s1)"
    using fold_visitDesired_step [of cfg now "activeDesiredTiles s" "{}" "{}" s] f by simp
  have e2: "evolves cfg (frame s) (tiles s1) (map (retarget cfg now vis (frame s1)) (tiles s1))"
    by (rule evolves_map) (simp add: tileStep_def retarget_fields)
  show ?thesis using evolves_trans [OF e1 e2] f by (simp add: updateProgressiveVisibility_def)
qed

lemma processLoadQueue_keeps:
  assumes "getTile (tiles s) k = None \<or> (\<exists>t. getTile (tiles s) k = Some t \<and> state t \<noteq> Queued)"
  shows "getTile (tiles (processLoadQueue cfg s)) k = getTile (tiles s) k"
proof -
  define X where "X = getTile (tiles s) k"
  have X: "X = None \<or> (\<exists>t. X = Some t \<and> state t \<noteq> Queued)" using assms by (simp add: X_def)
  have "getTile (tiles (processLoadQueue cfg s)) k = X"
  proof (rule processLoadQueue_rule [where P = "\<lambda>s'. getTile (tiles s') k = X"])
    show "getTile (tiles s) k = X" by (simp add: X_def)
  next
    fix s' :: layerState and i assume "getTile (tiles s') k = X"
    then show "getTile (tiles (dequeue i s')) k = X" by (simp add: dequeue_def)
  next
    fix s' :: layerState and tile
    assume a: "getTile (tiles s') k = X" "getTile (tiles s') (key tile) = Some tile" "state tile = Queued"
    then have "key tile \<noteq> k" using X by auto
    then show "getTile (tiles (startTileLoad tile s')) k = X"
      using a(1) by (simp add: startTileLoad_def Let_def getTile_putTile)
  qed
  then show ?thesis by (simp add: X_def)
qed

lemma tiles_refreshDebugInfo [simp]: "tiles (refreshDebugInfo cfg z cx cy r s) = tiles s"
  by (simp add: refreshDebugInfo_def Let_def)

lemma frame_processLoadQueue: "frame (processLoadQueue cfg s) = frame s"
  by (rule processLoadQueue_rule) (simp_all add: dequeue_def startTileLoad_def Let_def setTile_def)

text \<open>What the last three calls of a frame can do to a tile that is stuck or absent.\<close>

lemma finishFrame_stuck:
  assumes "getTile (tiles s) k = None \<or> stuck cfg k a (tiles s)"
  shows "case getTile (tiles (finishFrame cfg v now s)) k of
           None \<Rightarrow> True
         | Some t' \<Rightarrow> (state t' = Error \<and> attempts t' = a) \<or> attempts t' = 0"
proof -
  let ?s1 = "processLoadQueue cfg s"
  let ?s2 = "updateProgressiveVisibility cfg now ?s1"
  have k1: "getTile (tiles ?s1) k = getTile (tiles s) k"
    by (rule processLoadQueue_keeps) (use assms in \<open>auto simp: stuck_def split: option.splits\<close>)
  have e: "evolves cfg (frame ?s1) (tiles ?s1) (tiles ?s2)" by (rule evolves_updateProgressiveVisibility)
  have t: "tiles (finishFrame cfg v now s) = tiles ?s2" by (simp add: finishFrame_def Let_def)
  show ?thesis
  proof (cases "getTile (tiles s) k")
    case None
    then show ?thesis
      using evolves_new [OF e, of k] k1 unfolding t by (auto split: option.splits)
  next
    case (Some u)
    then have "stuck cfg k a (tiles ?s1)" using assms k1 by (simp add: stuck_def)
    then have "stuck cfg k a (tiles ?s2)" by (rule stuck_evolves [OF e])
    then show ?thesis unfolding t by (auto simp: stuck_def split: option.splits)
  qed
qed

lemma update_unfold:
  "update cfg next now s =
     (if \<not> enabled cfg then s
      else finishFrame cfg next now
             (applySelected cfg now (selectViewState cfg next now (s\<lparr>frame := frame s + 1\<rparr>))))"
  by (simp add: update_def Let_def selectViewState_def applySelected_def deferred_def
           split: option.splits)

lemma selectViewState_tiles:
  "tiles (snd (selectViewState cfg next now s)) = tiles s"
  by (simp add: selectViewState_def split: option.splits)

lemma applySelected_stuck:
  assumes "stuck cfg k a (tiles s)"
  shows "getTile (tiles (applySelected cfg now (v, s))) k = None \<or>
         stuck cfg k a (tiles (applySelected cfg now (v, s)))"
proof (cases "Some (stateKeyOf v) \<noteq> stateKey s")
  case False
  then show ?thesis using assms by (simp add: applySelected_def)
next
  case True
  obtain ts where ts: "evolves cfg (frame s) (tiles s) ts" "shrinks ts (tiles (applyViewState cfg now v s))"
    using applyViewState_tiles by blast
  have st: "stuck cfg k a ts" by (rule stuck_evolves [OF ts(1) assms])
  have "getTile (tiles (applyViewState cfg now v s)) k = None \<or>
        getTile (tiles (applyViewState cfg now v s)) k = getTile ts k"
    using ts(2) unfolding shrinks_def by blast
  then have "getTile (tiles (applyViewState cfg now v s)) k = None \<or>
        stuck cfg k a (tiles (applyViewState cfg now v s))"
    using st by (auto simp: stuck_def)
  then show ?thesis using True by (simp add: applySelected_def)
qed

lemma update_stuck:
  assumes "stuck cfg k a (tiles s)"
  shows "case getTile (tiles (update cfg v now s)) k of
           None \<Rightarrow> True
         | Some t' \<Rightarrow> (state t' = Error \<and> attempts t' = a) \<or> attempts t' = 0"
proof (cases "enabled cfg")
  case False
  then show ?thesis using assms by (auto simp: update_unfold stuck_def split: option.splits)
next
  case True
  obtain v' s' where sel: "selectViewState cfg v now (s\<lparr>frame := frame s + 1\<rparr>) = (v', s')"
    by (cases "selectViewState cfg v now (s\<lparr>frame := frame s + 1\<rparr>)")
  have "tiles s' = tiles s"
    using selectViewState_tiles [of cfg v now "s\<lparr>frame := frame s + 1\<rparr>"] sel by simp
  then have "stuck cfg k a (tiles s')" using assms by simp
  then have "getTile (tiles (applySelected cfg now (v', s'))) k = None \<or>
             stuck cfg k a (tiles (applySelected cfg now (v', s')))"
    by (rule applySelected_stuck)
  then show ?thesis
    using finishFrame_stuck [of "applySelected cfg now (v', s')" k cfg a v now] True sel
    by (simp add: update_unfold)
qed

lemma tiles_releaseSlot [simp]: "tiles (releaseSlot s) = tiles s"
  by (simp add: releaseSlot_def)

lemma queue_releaseSlot [simp]:
  "loadQueue (releaseSlot s) = loadQueue s" "queuedKeys (releaseSlot s) = queuedKeys s"
  by (simp_all add: releaseSlot_def)

lemma loadFailedBody_requeues:
  assumes "getTile (tiles s) k = Some t" and "int (attempts t) \<le> retryLimit cfg"
  shows "getTile (tiles (loadFailedBody cfg k (attempts t) s)) k = Some (t\<lparr>state := Queued\<rparr>)"
    and "queuedKeys s \<subseteq> set (loadQueue s) \<Longrightarrow> k \<in> set (loadQueue (loadFailedBody cfg k (attempts t) s))"
proof -
  have kt: "key t = k" using assms(1) by (rule getTile_Some_key)
  let ?s2 = "setTile (t\<lparr>state := Idle\<rparr>) (setTile (t\<lparr>state := Error\<rparr>) (releaseSlot s))"
  have g: "getTile (tiles ?s2) k = Some (t\<lparr>state := Idle\<rparr>)" using kt by (simp add: getTile_putTile)
  have b: "loadFailedBody cfg k (attempts t) s = enqueueTileLoad k ?s2"
    using assms kt by (simp add: loadFailedBody_def Let_def)
  show "getTile (tiles (loadFailedBody cfg k (attempts t) s)) k = Some (t\<lparr>state := Queued\<rparr>)"
    unfolding b using g kt by (simp add: enqueueTileLoad_def Let_def getTile_putTile)
  show "k \<in> set (loadQueue (loadFailedBody cfg k (attempts t) s))" if "queuedKeys s \<subseteq> set (loadQueue s)"
    unfolding b using g that by (auto simp: enqueueTileLoad_def Let_def setTile_def)
qed

lemma loadFailedBody_terminal:
  assumes "getTile (tiles s) k = Some t" and "retryLimit cfg < int (attempts t)"
  shows "getTile (tiles (loadFailedBody cfg k (attempts t) s)) k = Some (t\<lparr>state := Error\<rparr>)"
proof -
  have kt: "key t = k" using assms(1) by (rule getTile_Some_key)
  show ?thesis using assms kt by (simp add: loadFailedBody_def Let_def getTile_putTile)
qed

lemma tiles_enqueueTileLoad_other:
  "k' \<noteq> k \<Longrightarrow> getTile (tiles (enqueueTileLoad k' s)) k = getTile (tiles s) k"
  by (auto simp: enqueueTileLoad_def Let_def getTile_putTile dest: getTile_Some_key split: option.splits)

lemma loadFailedBody_other:
  assumes "k' \<noteq> k"
  shows "getTile (tiles (loadFailedBody cfg k' a' s)) k = getTile (tiles s) k"
proof (cases "getTile (tiles s) k'")
  case None
  then show ?thesis by (simp add: loadFailedBody_def Let_def)
next
  case (Some c)
  have kc: "key c = k'" using Some by (rule getTile_Some_key)
  show ?thesis using Some kc assms
    by (simp add: loadFailedBody_def Let_def getTile_putTile tiles_enqueueTileLoad_other)
qed

lemma loadFailedBody_stuck:
  assumes "stuck cfg k a (tiles s)"
  shows "stuck cfg k a (tiles (loadFailedBody cfg k' a' s))"
proof (cases "k' = k")
  case False
  then show ?thesis using assms loadFailedBody_other [OF False, of cfg a' s] by (simp add: stuck_def)
next
  case True
  obtain t where t: "getTile (tiles s) k = Some t" "state t = Error" "attempts t = a" "retryLimit cfg < int a"
    using assms by (auto simp: stuck_def split: option.splits)
  show ?thesis
  proof (cases "a' = a")
    case False
    then show ?thesis using assms t True by (simp add: loadFailedBody_def Let_def)
  next
    case eq: True
    have "getTile (tiles (loadFailedBody cfg k (attempts t) s)) k = Some (t\<lparr>state := Error\<rparr>)"
      by (rule loadFailedBody_terminal) (use t in simp_all)
    then show ?thesis using t True eq by (simp add: stuck_def)
  qed
qed

lemma processLoadQueue_stuck:
  "stuck cfg k a (tiles s) \<Longrightarrow> stuck cfg k a (tiles (processLoadQueue cfg s))"
  using processLoadQueue_keeps [of s k cfg] by (auto simp: stuck_def split: option.splits)

lemma processLoadQueue_queued:
  assumes "getTile (tiles s) k = Some t" and "state t = Queued"
  shows "\<exists>t'. getTile (tiles (processLoadQueue cfg s)) k = Some t' \<and>
              ((state t' = Queued \<and> attempts t' = attempts t) \<or>
               (state t' = Loading \<and> attempts t' = attempts t + 1))"
proof (rule processLoadQueue_rule
    [where P = "\<lambda>s'. \<exists>t'. getTile (tiles s') k = Some t' \<and>
                  ((state t' = Queued \<and> attempts t' = attempts t) \<or>
                   (state t' = Loading \<and> attempts t' = attempts t + 1))"])
  show "\<exists>t'. getTile (tiles s) k = Some t' \<and>
          ((state t' = Queued \<and> attempts t' = attempts t) \<or>
           (state t' = Loading \<and> attempts t' = attempts t + 1))"
    using assms by simp
next
  fix s' :: layerState and i
  assume "\<exists>t'. getTile (tiles s') k = Some t' \<and>
          ((state t' = Queued \<and> attempts t' = attempts t) \<or>
           (state t' = Loading \<and> attempts t' = attempts t + 1))"
  then show "\<exists>t'. getTile (tiles (dequeue i s')) k = Some t' \<and>
          ((state t' = Queued \<and> attempts t' = attempts t) \<or>
           (state t' = Loading \<and> attempts t' = attempts t + 1))"
    by (simp add: dequeue_def)
next
  fix s' :: layerState and tile
  assume a: "\<exists>t'. getTile (tiles s') k = Some t' \<and>
          ((state t' = Queued \<and> attempts t' = attempts t) \<or>
           (state t' = Loading \<and> attempts t' = attempts t + 1))"
    and b: "getTile (tiles s') (key tile) = Some tile" "state tile = Queued"
  show "\<exists>t'. getTile (tiles (startTileLoad tile s')) k = Some t' \<and>
          ((state t' = Queued \<and> attempts t' = attempts t) \<or>
           (state t' = Loading \<and> attempts t' = attempts t + 1))"
    using a b by (cases "key tile = k") (auto simp: startTileLoad_def Let_def getTile_putTile)
qed

lemma dispatchAndFail_round:
  assumes "getTile (tiles s) k = Some t"
  shows "\<exists>t'. getTile (tiles (dispatchAndFail cfg k s)) k = Some t' \<and> attempts t' = attempts t + 1 \<and>
              state t' = (if int (attempts t + 1) \<le> retryLimit cfg then Queued else Error)"
proof -
  have kt: "key t = k" using assms by (rule getTile_Some_key)
  let ?t1 = "t\<lparr>state := Loading, attempts := attempts t + 1\<rparr>"
  let ?s1 = "startTileLoad t s"
  have g: "getTile (tiles ?s1) k = Some ?t1" using kt by (simp add: startTileLoad_def Let_def getTile_putTile)
  have d: "dispatchAndFail cfg k s = loadFailedBody cfg k (attempts ?t1) ?s1"
    using assms by (simp add: dispatchAndFail_def)
  show ?thesis
  proof (cases "int (attempts t + 1) \<le> retryLimit cfg")
    case True
    then have "int (attempts ?t1) \<le> retryLimit cfg" by simp
    from loadFailedBody_requeues(1) [OF g this] show ?thesis unfolding d using True by simp
  next
    case False
    then have "retryLimit cfg < int (attempts ?t1)" by simp
    from loadFailedBody_terminal [OF g this] show ?thesis unfolding d using False by simp
  qed
qed

lemma dispatchAndFail_rounds:
  assumes "getTile (tiles s) k = Some t" and "attempts t = 0"
  shows "\<exists>t'. getTile (tiles ((dispatchAndFail cfg k ^^ Suc n) s)) k = Some t' \<and> attempts t' = Suc n \<and>
              state t' = (if int (Suc n) \<le> retryLimit cfg then Queued else Error)"
proof (induction n)
  case 0
  show ?case using dispatchAndFail_round [OF assms(1), of cfg] assms(2) by simp
next
  case (Suc n)
  then obtain t' where t': "getTile (tiles ((dispatchAndFail cfg k ^^ Suc n) s)) k = Some t'"
    "attempts t' = Suc n" by blast
  show ?case using dispatchAndFail_round [OF t'(1), of cfg] t'(2) by simp
qed

text \<open>
  C1. Let the cache hold a tile under key \<open>k\<close>. A failure completion for the tile's current
  attempt re-queues the tile while \<open>attempts \<le> retryLimit\<close> (it is \<open>Queued\<close> after the callback
  body, and in the load queue when the queued keys were all in the load queue before, as
  they are in every state a constructed layer reaches; it is \<open>Queued\<close> or already dispatched
  again after the queue drain that ends the callback); with \<open>attempts > retryLimit\<close> it leaves
  the tile in \<open>Error\<close>.
  A tile in \<open>Error\<close> with \<open>attempts > retryLimit\<close> stays so under every failure callback, and
  after every \<open>update\<close> (desired-set loop and ancestor walk included) it is still in \<open>Error\<close>
  with the same attempts, unless it was evicted (no entry, or a recreated entry with
  \<open>attempts = 0\<close>). Counting from a fresh tile, the \<open>n\<close>-th consecutive failed load leaves
  the tile \<open>Queued\<close> for \<open>n \<le> retryLimit\<close> and in \<open>Error\<close> for \<open>n = retryLimit + 1\<close>.
\<close>

theorem retry_bound:
  assumes "getTile (tiles s) k = Some t"
  shows "(int (attempts t) \<le> retryLimit cfg \<longrightarrow>
           (\<exists>t'. getTile (tiles (loadFailedBody cfg k (attempts t) s)) k = Some t' \<and>
                 state t' = Queued \<and> attempts t' = attempts t) \<and>
           (queuedKeys s \<subseteq> set (loadQueue s) \<longrightarrow>
              k \<in> set (loadQueue (loadFailedBody cfg k (attempts t) s))) \<and>
           (\<exists>t'. getTile (tiles (loadFailed cfg k (attempts t) s)) k = Some t' \<and>
                 ((state t' = Queued \<and> attempts t' = attempts t) \<or>
                  (state t' = Loading \<and> attempts t' = attempts t + 1)))) \<and>
         (retryLimit cfg < int (attempts t) \<longrightarrow>
           (\<exists>t'. getTile (tiles (loadFailed cfg k (attempts t) s)) k = Some t' \<and>
                 state t' = Error \<and> attempts t' = attempts t)) \<and>
         (state t = Error \<and> retryLimit cfg < int (attempts t) \<longrightarrow>
           (\<forall>k' a'. \<exists>t'. getTile (tiles (loadFailed cfg k' a' s)) k = Some t' \<and>
                          state t' = Error \<and> attempts t' = attempts t) \<and>
           (\<forall>v now. case getTile (tiles (update cfg v now s)) k of
                       None \<Rightarrow> True
                     | Some t' \<Rightarrow> (state t' = Error \<and> attempts t' = attempts t) \<or> attempts t' = 0)) \<and>
         (attempts t = 0 \<longrightarrow>
           (\<forall>n. int (Suc n) \<le> retryLimit cfg + 1 \<longrightarrow>
              (\<exists>t'. getTile (tiles ((dispatchAndFail cfg k ^^ Suc n) s)) k = Some t' \<and>
                    attempts t' = Suc n \<and>
                    state t' = (if int (Suc n) \<le> retryLimit cfg then Queued else Error))))"
proof (intro conjI impI allI)
  assume le: "int (attempts t) \<le> retryLimit cfg"
  have g: "getTile (tiles (loadFailedBody cfg k (attempts t) s)) k = Some (t\<lparr>state := Queued\<rparr>)"
    by (rule loadFailedBody_requeues(1) [OF assms le])
  then show "\<exists>t'. getTile (tiles (loadFailedBody cfg k (attempts t) s)) k = Some t' \<and>
                 state t' = Queued \<and> attempts t' = attempts t"
    by simp
  show "k \<in> set (loadQueue (loadFailedBody cfg k (attempts t) s))" if "queuedKeys s \<subseteq> set (loadQueue s)"
    by (rule loadFailedBody_requeues(2) [OF assms le that])
  show "\<exists>t'. getTile (tiles (loadFailed cfg k (attempts t) s)) k = Some t' \<and>
                 ((state t' = Queued \<and> attempts t' = attempts t) \<or>
                  (state t' = Loading \<and> attempts t' = attempts t + 1))"
    using processLoadQueue_queued [OF g, of cfg] by (simp add: loadFailed_def)
next
  assume gt: "retryLimit cfg < int (attempts t)"
  have "getTile (tiles (loadFailedBody cfg k (attempts t) s)) k = Some (t\<lparr>state := Error\<rparr>)"
    by (rule loadFailedBody_terminal [OF assms gt])
  then have "stuck cfg k (attempts t) (tiles (loadFailedBody cfg k (attempts t) s))"
    using gt by (simp add: stuck_def)
  then have "stuck cfg k (attempts t) (tiles (loadFailed cfg k (attempts t) s))"
    unfolding loadFailed_def by (rule processLoadQueue_stuck)
  then show "\<exists>t'. getTile (tiles (loadFailed cfg k (attempts t) s)) k = Some t' \<and>
                 state t' = Error \<and> attempts t' = attempts t"
    by (auto simp: stuck_def split: option.splits)
next
  fix k' a'
  assume "state t = Error \<and> retryLimit cfg < int (attempts t)"
  then have "stuck cfg k (attempts t) (tiles s)" using assms by (simp add: stuck_def)
  then have "stuck cfg k (attempts t) (tiles (loadFailed cfg k' a' s))"
    unfolding loadFailed_def by (intro processLoadQueue_stuck loadFailedBody_stuck)
  then show "\<exists>t'. getTile (tiles (loadFailed cfg k' a' s)) k = Some t' \<and>
                 state t' = Error \<and> attempts t' = attempts t"
    by (auto simp: stuck_def split: option.splits)
next
  fix v now
  assume "state t = Error \<and> retryLimit cfg < int (attempts t)"
  then have "stuck cfg k (attempts t) (tiles s)" using assms by (simp add: stuck_def)
  then show "case getTile (tiles (update cfg v now s)) k of
               None \<Rightarrow> True
             | Some t' \<Rightarrow> (state t' = Error \<and> attempts t' = attempts t) \<or> attempts t' = 0"
    by (rule update_stuck)
next
  fix n
  assume "attempts t = 0"
  then show "\<exists>t'. getTile (tiles ((dispatchAndFail cfg k ^^ Suc n) s)) k = Some t' \<and>
                 attempts t' = Suc n \<and>
                 state t' = (if int (Suc n) \<le> retryLimit cfg then Queued else Error)"
    by (rule dispatchAndFail_rounds [OF assms])
qed

lemma retryLimit_noOptions: "retryLimit (configOf noOptions) = 2"
  by (simp add: configOf_def noOptions_def orElse_def Let_def)

theorem retry_bound_witness:
  "getTile (tiles (stateWith (configOf noOptions) [exampleTile Loading 1])) (10, 512, 341) =
     Some (exampleTile Loading 1) \<and>
   int (attempts (exampleTile Loading 1)) \<le> retryLimit (configOf noOptions) \<and>
   (\<exists>t'. getTile (tiles (loadFailedBody (configOf noOptions) (10, 512, 341)
                           (attempts (exampleTile Loading 1))
                           (stateWith (configOf noOptions) [exampleTile Loading 1]))) (10, 512, 341) = Some t' \<and>
         state t' = Queued \<and> attempts t' = attempts (exampleTile Loading 1)) \<and>
   getTile (tiles (stateWith (configOf noOptions) [exampleTile Error 3])) (10, 512, 341) =
     Some (exampleTile Error 3) \<and>
   state (exampleTile Error 3) = Error \<and>
   retryLimit (configOf noOptions) < int (attempts (exampleTile Error 3)) \<and>
   (case getTile (tiles (update (configOf noOptions) (viewAt 10 512 341 2) 0
                           (stateWith (configOf noOptions) [exampleTile Error 3]))) (10, 512, 341) of
      None \<Rightarrow> True
    | Some t' \<Rightarrow> (state t' = Error \<and> attempts t' = attempts (exampleTile Error 3)) \<or> attempts t' = 0) \<and>
   getTile (tiles (stateWith (configOf noOptions) [exampleTile Queued 0])) (10, 512, 341) =
     Some (exampleTile Queued 0) \<and>
   attempts (exampleTile Queued 0) = 0 \<and>
   (\<exists>t'. getTile (tiles ((dispatchAndFail (configOf noOptions) (10, 512, 341) ^^ Suc 2)
                           (stateWith (configOf noOptions) [exampleTile Queued 0]))) (10, 512, 341) = Some t' \<and>
         attempts t' = Suc 2 \<and> state t' = Error)"
proof -
  let ?cfg = "configOf noOptions"
  have a: "getTile (tiles (stateWith ?cfg [exampleTile Loading 1])) (10, 512, 341) =
             Some (exampleTile Loading 1)"
    by (simp add: stateWith_def getTile_def exampleTile_def)
  have b: "getTile (tiles (stateWith ?cfg [exampleTile Error 3])) (10, 512, 341) =
             Some (exampleTile Error 3)"
    by (simp add: stateWith_def getTile_def exampleTile_def)
  have c: "getTile (tiles (stateWith ?cfg [exampleTile Queued 0])) (10, 512, 341) =
             Some (exampleTile Queued 0)"
    by (simp add: stateWith_def getTile_def exampleTile_def)
  have a1: "int (attempts (exampleTile Loading 1)) \<le> retryLimit ?cfg"
    by (simp add: retryLimit_noOptions exampleTile_def)
  have b1: "state (exampleTile Error 3) = Error \<and> retryLimit ?cfg < int (attempts (exampleTile Error 3))"
    by (simp add: retryLimit_noOptions exampleTile_def)
  have c1: "attempts (exampleTile Queued 0) = 0" by (simp add: exampleTile_def)
  have c2: "int (Suc 2) \<le> retryLimit ?cfg + 1" "\<not> int (Suc 2) \<le> retryLimit ?cfg"
    by (simp_all add: retryLimit_noOptions)
  note A = retry_bound [OF a, of ?cfg, THEN conjunct1, rule_format, OF a1, THEN conjunct1]
  note B = retry_bound [OF b, of ?cfg, THEN conjunct2, THEN conjunct2, THEN conjunct1, rule_format,
      OF b1, THEN conjunct2, rule_format, of "viewAt 10 512 341 2" 0]
  note C = retry_bound [OF c, of ?cfg, THEN conjunct2, THEN conjunct2, THEN conjunct2, rule_format,
      OF c1 c2(1)]
  have C': "\<exists>t'. getTile (tiles ((dispatchAndFail ?cfg (10, 512, 341) ^^ Suc 2)
                           (stateWith ?cfg [exampleTile Queued 0]))) (10, 512, 341) = Some t' \<and>
         attempts t' = Suc 2 \<and> state t' = Error"
    using C c2(2) by presburger
  show ?thesis
    by (intro conjI a a1 A b conjunct1 [OF b1] conjunct2 [OF b1] B c c1 C')
qed

lemma throttleFields_control: "control s' = control s \<Longrightarrow> throttleFields s' = throttleFields s"
  using control_fields [of s' s] by (simp add: throttleFields_def)

lemma throttleFields_processLoadQueue:
  "throttleFields (processLoadQueue cfg s) = throttleFields s"
  by (rule processLoadQueue_rule)
     (simp_all add: throttleFields_def dequeue_def startTileLoad_def setTile_def Let_def)

lemma throttleFields_finishFrame: "throttleFields (finishFrame cfg v now s) = throttleFields s"
proof -
  have a: "throttleFields (refreshDebugInfo cfg z cx cy r s') = throttleFields s'" for z cx cy r s'
    by (simp add: throttleFields_def refreshDebugInfo_def Let_def)
  have b: "throttleFields (updateProgressiveVisibility cfg now s') = throttleFields s'" for s'
    by (rule throttleFields_control) simp
  show ?thesis by (simp add: finishFrame_def Let_def a b throttleFields_processLoadQueue)
qed

lemma deferred_cong:
  "stateKey s' = stateKey s \<Longrightarrow> appliedViewState s' = appliedViewState s \<Longrightarrow>
   lastLayoutUpdateMs s' = lastLayoutUpdateMs s \<Longrightarrow> deferred cfg v t s' = deferred cfg v t s"
  unfolding deferred_def shouldApplyNow_def by presburger

lemma deferred_applied:
  "deferred cfg v t s \<Longrightarrow> \<exists>a. appliedViewState s = Some a"
  by (cases "appliedViewState s") (auto simp: deferred_def shouldApplyNow_def split: option.splits)

text \<open>A deferred call stores its view state and applies nothing.\<close>

lemma update_deferred:
  assumes "enabled cfg" and "viewConsistent s" and "deferred cfg v t s"
  shows "update cfg v t s =
           finishFrame cfg v t (s\<lparr>frame := frame s + 1, pendingViewState := Some v\<rparr>)"
proof -
  obtain a where a: "appliedViewState s = Some a" using deferred_applied [OF assms(3)] by blast
  have k: "stateKey s = Some (stateKeyOf a)" using assms(2) a by (simp add: viewConsistent_def)
  have d: "deferred cfg v t (s\<lparr>frame := frame s + 1\<rparr>)"
    using assms(3) deferred_cong [of "s\<lparr>frame := frame s + 1\<rparr>" s cfg v t] by simp
  show ?thesis
    using assms(1) d a k
    by (simp add: update_unfold selectViewState_def applySelected_def)
qed

lemma update_deferred_fields:
  assumes "enabled cfg" and "viewConsistent s" and "deferred cfg v t s"
  shows "throttleFields (update cfg v t s) =
           (stateKey s, appliedViewState s, Some v, lastLayoutUpdateMs s)"
  unfolding update_deferred [OF assms] throttleFields_finishFrame
  by (simp add: throttleFields_def)

text \<open>The call that is not deferred applies the stored pending state, once.\<close>

lemma update_applies_pending:
  assumes "enabled cfg" and "\<not> deferred cfg v t s" and "pendingViewState s = Some p"
    and "Some (stateKeyOf p) \<noteq> stateKey s"
  shows "update cfg v t s =
           finishFrame cfg v t
             ((applyViewState cfg t p (s\<lparr>frame := frame s + 1, pendingViewState := None\<rparr>))
                \<lparr>lastLayoutUpdateMs := t, appliedViewState := Some p\<rparr>)"
proof -
  have d: "\<not> deferred cfg v t (s\<lparr>frame := frame s + 1\<rparr>)"
    using assms(2) deferred_cong [of "s\<lparr>frame := frame s + 1\<rparr>" s cfg v t] by simp
  show ?thesis using assms(1,3,4) d
    by (simp add: update_unfold selectViewState_def applySelected_def)
qed

lemma throttleFields_applied:
  "throttleFields
     (finishFrame cfg v t
        ((applyViewState cfg t p s)\<lparr>lastLayoutUpdateMs := t, appliedViewState := Some p\<rparr>)) =
   (Some (stateKeyOf p), Some p, pendingViewState s, t)"
  using control_fields [OF control_applyViewState [of cfg t p s]]
  by (simp add: throttleFields_finishFrame) (simp add: throttleFields_def)

lemma update_same_key:
  assumes "enabled cfg" and "stateKey s = Some (stateKeyOf v)" and "pendingViewState s = None"
  shows "update cfg v t s = finishFrame cfg v t (s\<lparr>frame := frame s + 1\<rparr>)"
  using assms by (simp add: update_unfold selectViewState_def applySelected_def deferred_def)

lemma maxCachedTiles_smallCache: "maxCachedTiles (configOf smallCacheOptions) = 16"
  by (simp add: configOf_def smallCacheOptions_def noOptions_def orElse_def Let_def)

lemma set_deleteTile: "set (deleteTile k ts) = {t \<in> set ts. key t \<noteq> k}"
  by (auto simp: deleteTile_def)

lemma evictLoop_bound:
  assumes "\<forall>t\<in>set (tiles s). key t \<notin> w \<and> state t \<noteq> Loading \<longrightarrow> t \<in> set cs"
  shows "int (length (tiles (evictLoop cfg cs s))) \<le> maxCachedTiles cfg \<or>
         (\<forall>t\<in>set (tiles (evictLoop cfg cs s)). key t \<in> w \<or> state t = Loading)"
  using assms
proof (induction cs arbitrary: s)
  case Nil
  then show ?case by auto
next
  case (Cons c cs)
  show ?case
  proof (cases "int (length (tiles s)) \<le> maxCachedTiles cfg")
    case True
    then show ?thesis by simp
  next
    case False
    let ?s' = "disposeTile (key c) s"
    have "\<forall>t\<in>set (tiles ?s'). key t \<notin> w \<and> state t \<noteq> Loading \<longrightarrow> t \<in> set cs"
      using Cons.prems by (auto simp: disposeTile_def set_deleteTile)
    from Cons.IH [OF this] show ?thesis using False by simp
  qed
qed

lemma evictTiles_bound:
  "int (length (tiles (evictTiles cfg w s))) \<le> maxCachedTiles cfg \<or>
   (\<forall>t\<in>set (tiles (evictTiles cfg w s)). key t \<in> w \<or> state t = Loading)"
proof -
  let ?stale = "map key (filter (\<lambda>tile. \<not> (key tile \<in> w) \<and> state tile \<noteq> Loading \<and>
                                   frame s - lastWantedFrame tile > retainFrames cfg) (tiles s))"
  let ?s1 = "fold (\<lambda>k st. case getTile (tiles st) k of None \<Rightarrow> st | Some tile \<Rightarrow> disposeTile k st)
               ?stale s"
  let ?cs = "sortBy evictBefore (filter (\<lambda>tile. \<not> (key tile \<in> w) \<and> state tile \<noteq> Loading) (tiles ?s1))"
  show ?thesis
  proof (cases "int (length (tiles ?s1)) \<le> maxCachedTiles cfg")
    case True
    then show ?thesis by (simp add: evictTiles_def Let_def)
  next
    case False
    have "\<forall>t\<in>set (tiles ?s1). key t \<notin> w \<and> state t \<noteq> Loading \<longrightarrow> t \<in> set ?cs"
      by (simp add: set_sortBy)
    from evictLoop_bound [OF this, of cfg] show ?thesis using False
      by (simp add: evictTiles_def Let_def)
  qed
qed

lemma fst_wantTile: "fst (wantTile cfg now d (w, s)) = insert (dKey d) w"
  by (simp add: wantTile_def Let_def)

lemma fst_fold_wantTile: "fst (fold (wantTile cfg now) ds (w, s)) = w \<union> dKey ` set ds"
proof (induction ds arbitrary: w s)
  case Nil
  then show ?case by simp
next
  case (Cons d ds)
  obtain w' s' where st: "wantTile cfg now d (w, s) = (w', s')" by (cases "wantTile cfg now d (w, s)")
  have "w' = insert (dKey d) w" using fst_wantTile [of cfg now d w s] st by simp
  then show ?case using Cons.IH [of w' s'] st by auto
qed

text \<open>
  C4, as amended. After an eviction pass the cache holds at most \<open>maxCachedTiles\<close> entries,
  unless every entry that is left is wanted by the view state being applied or is in state
  \<open>Loading\<close>. The same holds of a whole \<open>applyViewState\<close>, whose wanted keys are those of the
  desired tiles.
\<close>

theorem cache_bound_after_eviction:
  "(int (length (tiles (evictTiles cfg w s))) \<le> maxCachedTiles cfg \<or>
    (\<forall>t\<in>set (tiles (evictTiles cfg w s)). key t \<in> w \<or> state t = Loading)) \<and>
   (int (length (tiles (applyViewState cfg now v s))) \<le> maxCachedTiles cfg \<or>
    (\<forall>t\<in>set (tiles (applyViewState cfg now v s)).
        key t \<in> dKey ` set (collectDesiredTiles cfg v) \<or> state t = Loading))"
proof
  show "int (length (tiles (evictTiles cfg w s))) \<le> maxCachedTiles cfg \<or>
    (\<forall>t\<in>set (tiles (evictTiles cfg w s)). key t \<in> w \<or> state t = Loading)"
    by (rule evictTiles_bound)
next
  let ?ds = "collectDesiredTiles cfg v"
  let ?s1 = "s\<lparr>requestedCount := length ?ds, activeDesiredTiles := ?ds\<rparr>"
  obtain w' s2 where f: "fold (wantTile cfg now) ?ds ({}, ?s1) = (w', s2)"
    by (cases "fold (wantTile cfg now) ?ds ({}, ?s1)")
  have w': "w' = dKey ` set ?ds" using fst_fold_wantTile [of cfg now ?ds "{}" ?s1] f by simp
  have a: "applyViewState cfg now v s =
             evictTiles cfg w' ((fadeUnwanted cfg w' s2)\<lparr>stateKey := Some (stateKeyOf v)\<rparr>)"
    using f by (simp add: applyViewState_def Let_def)
  show "int (length (tiles (applyViewState cfg now v s))) \<le> maxCachedTiles cfg \<or>
    (\<forall>t\<in>set (tiles (applyViewState cfg now v s)).
        key t \<in> dKey ` set (collectDesiredTiles cfg v) \<or> state t = Loading)"
    unfolding a using evictTiles_bound [of cfg w' "(fadeUnwanted cfg w' s2)\<lparr>stateKey := Some (stateKeyOf v)\<rparr>"]
    unfolding w' .
qed

theorem cache_bound_after_eviction_counterexample:
  "maxCachedTiles (configOf smallCacheOptions) = 16 \<and>
   map state (tiles (applyViewState (configOf smallCacheOptions) 0 (viewAt 10 512 341 2)
                       (initialState (configOf smallCacheOptions)))) = replicate 25 Queued"
proof
  show "maxCachedTiles (configOf smallCacheOptions) = 16" by (rule maxCachedTiles_smallCache)
  show "map state (tiles (applyViewState (configOf smallCacheOptions) 0 (viewAt 10 512 341 2)
                       (initialState (configOf smallCacheOptions)))) = replicate 25 Queued"
    by code_simp
qed

theorem cache_bound_after_eviction_witness:
  "(int (length (tiles (evictTiles (configOf smallCacheOptions) {}
                          (stateWith (configOf smallCacheOptions) [exampleTile Error 3])))) \<le> 16 \<or>
    (\<forall>t\<in>set (tiles (evictTiles (configOf smallCacheOptions) {}
                        (stateWith (configOf smallCacheOptions) [exampleTile Error 3]))).
        key t \<in> {} \<or> state t = Loading)) \<and>
   (int (length (tiles (applyViewState (configOf smallCacheOptions) 0 (viewAt 10 512 341 2)
                          (stateWith (configOf smallCacheOptions) [exampleTile Error 3])))) \<le> 16 \<or>
    (\<forall>t\<in>set (tiles (applyViewState (configOf smallCacheOptions) 0 (viewAt 10 512 341 2)
                        (stateWith (configOf smallCacheOptions) [exampleTile Error 3]))).
        key t \<in> dKey ` set (collectDesiredTiles (configOf smallCacheOptions) (viewAt 10 512 341 2)) \<or>
        state t = Loading))"
  using cache_bound_after_eviction
    [where cfg = "configOf smallCacheOptions" and w = "{}"
       and s = "stateWith (configOf smallCacheOptions) [exampleTile Error 3]"
       and now = 0 and v = "viewAt 10 512 341 2"]
  unfolding maxCachedTiles_smallCache .

lemma processLoadQueue_rule2:
  assumes start: "P s"
    and deq: "\<And>s i. P s \<Longrightarrow> inflightCount s < maxConcurrentRequests cfg \<Longrightarrow> i < length (loadQueue s)
                \<Longrightarrow> P (dequeue i s)"
    and load: "\<And>s i tile. P s \<Longrightarrow> inflightCount s < maxConcurrentRequests cfg \<Longrightarrow>
                 i < length (loadQueue s) \<Longrightarrow>
                 getTile (tiles s) (loadQueue s ! i) = Some tile \<Longrightarrow> state tile = Queued \<Longrightarrow>
                 P (startTileLoad tile (dequeue i s))"
  shows "P (processLoadQueue cfg s)"
  using assms
proof (induction cfg s rule: processLoadQueue.induct)
  case (1 cfg s)
  note Ps = "1.prems"(1) and deq = "1.prems"(2) and load = "1.prems"(3)
  show ?case
  proof (cases "inflightCount s < maxConcurrentRequests cfg \<and> loadQueue s \<noteq> []")
    case False
    then show ?thesis using Ps by (subst processLoadQueue.simps) auto
  next
    case True
    let ?i = "pickBestQueueIndex s"
    let ?k = "loadQueue s ! ?i"
    let ?s1 = "s\<lparr>loadQueue := take ?i (loadQueue s) @ drop (Suc ?i) (loadQueue s),
                  queuedKeys := queuedKeys s - {?k}\<rparr>"
    have eq: "?s1 = dequeue ?i s" by (simp add: dequeue_def)
    have i: "?i < length (loadQueue s)" using True pickBestQueueIndex_bound by simp
    have P1: "P ?s1" unfolding eq by (rule deq [OF Ps conjunct1 [OF True] i])
    show ?thesis
    proof (cases "getTile (tiles s) ?k")
      case None
      have g: "getTile (tiles ?s1) ?k = None" using None by simp
      have "P (processLoadQueue cfg ?s1)"
        by (rule "1.IH"(1) [OF True refl refl refl g P1 deq load])
      then show ?thesis using True None
        by (subst processLoadQueue.simps) (simp add: Let_def)
    next
      case (Some tile)
      show ?thesis
      proof (cases "state tile \<noteq> Queued")
        case neq: True
        have g: "getTile (tiles ?s1) ?k = Some tile" using Some by simp
        have "P (processLoadQueue cfg ?s1)"
          by (rule "1.IH"(2) [OF True refl refl refl g neq P1 deq load])
        then show ?thesis using True Some neq
          by (subst processLoadQueue.simps) (simp add: Let_def)
      next
        case False
        have g: "getTile (tiles ?s1) ?k = Some tile" using Some by simp
        have q: "state tile = Queued" using False by simp
        have P2: "P (startTileLoad tile ?s1)"
          unfolding eq by (rule load [OF Ps conjunct1 [OF True] i Some q])
        have "P (processLoadQueue cfg (startTileLoad tile ?s1))"
          by (rule "1.IH"(3) [OF True refl refl refl g False P2 deq load])
        then show ?thesis using True Some False
          by (subst processLoadQueue.simps) (simp add: Let_def)
      qed
    qed
  qed
qed

lemma set_dequeue: "i < length (loadQueue s) \<Longrightarrow> set (loadQueue (dequeue i s)) \<subseteq> set (loadQueue s)"
  by (auto simp: dequeue_def dest: in_set_takeD in_set_dropD)

lemma drainedFrom_processLoadQueue: "drainedFrom s (processLoadQueue cfg s)"
proof (rule processLoadQueue_rule2 [where P = "drainedFrom s"])
  show "drainedFrom s s" by (simp add: drainedFrom_def)
next
  fix s' :: layerState and i
  assume a: "drainedFrom s s'" "i < length (loadQueue s')"
  have r: "requests (dequeue i s') = requests s'" "tiles (dequeue i s') = tiles s'"
    by (simp_all add: dequeue_def)
  show "drainedFrom s (dequeue i s')"
    using a set_dequeue [OF a(2)] unfolding drainedFrom_def r by blast
next
  fix s' :: layerState and i tile
  assume a: "drainedFrom s s'" "i < length (loadQueue s')"
    "getTile (tiles s') (loadQueue s' ! i) = Some tile" "state tile = Queued"
  have kt: "key tile = loadQueue s' ! i" using a(3) by (rule getTile_Some_key)
  have mem: "key tile \<in> set (loadQueue s0)" if "set (loadQueue s') \<subseteq> set (loadQueue s0)" for s0
    using that a(2) kt by auto
  have q: "loadQueue (startTileLoad tile (dequeue i s')) = loadQueue (dequeue i s')"
    by (simp add: startTileLoad_def Let_def setTile_def)
  have r: "requests (startTileLoad tile (dequeue i s')) = requests s' @ [(key tile, attempts tile + 1)]"
    by (simp add: startTileLoad_def Let_def setTile_def dequeue_def)
  have t: "getTile (tiles (startTileLoad tile (dequeue i s'))) k =
             (if k = key tile then Some (tile\<lparr>state := Loading, attempts := attempts tile + 1\<rparr>)
              else getTile (tiles s') k)" for k
    by (simp add: startTileLoad_def Let_def getTile_putTile dequeue_def)
  show "drainedFrom s (startTileLoad tile (dequeue i s'))"
    unfolding drainedFrom_def q r t
    using a(1) set_dequeue [OF a(2)] mem [of s] unfolding drainedFrom_def by auto
qed

lemma drainedFrom_tile:
  "drainedFrom s0 s \<Longrightarrow> k \<notin> set (loadQueue s0) \<Longrightarrow> getTile (tiles s) k = getTile (tiles s0) k"
  unfolding drainedFrom_def by blast

lemma drainedFrom_request:
  "drainedFrom s0 s \<Longrightarrow> r \<in> set (requests s) \<Longrightarrow>
   r \<in> set (requests s0) \<or> fst r \<in> set (loadQueue s0)"
  unfolding drainedFrom_def by blast

lemma processLoadQueue_idle:
  "loadQueue s = [] \<or> maxConcurrentRequests cfg \<le> inflightCount s \<Longrightarrow> processLoadQueue cfg s = s"
  by (subst processLoadQueue.simps) auto

lemma attempts_evolves:
  "evolves cfg fr ts ts' \<Longrightarrow> getTile ts k = Some t \<Longrightarrow>
   \<exists>t'. getTile ts' k = Some t' \<and> attempts t' = attempts t"
  using evolves_old [of cfg fr ts ts' k t] by (auto simp: tileStep_def)

lemma finishFrame_parts:
  "requests (finishFrame cfg v now s) = requests (processLoadQueue cfg s) \<and>
   evolves cfg (frame (processLoadQueue cfg s)) (tiles (processLoadQueue cfg s))
     (tiles (finishFrame cfg v now s))"
proof -
  let ?s1 = "processLoadQueue cfg s"
  let ?s2 = "updateProgressiveVisibility cfg now ?s1"
  have r: "requests ?s2 = requests ?s1"
    using control_fields [OF control_updateProgressiveVisibility [of cfg now ?s1]] by simp
  have e: "evolves cfg (frame ?s1) (tiles ?s1) (tiles ?s2)" by (rule evolves_updateProgressiveVisibility)
  show ?thesis using r e by (simp add: finishFrame_def Let_def refreshDebugInfo_def)
qed

lemma update_first_applies:
  assumes "enabled cfg" and "pendingViewState s = None" and "\<not> deferred cfg v t s"
  shows "stateKey (update cfg v t s) = Some (stateKeyOf v) \<and> pendingViewState (update cfg v t s) = None"
proof -
  let ?s1 = "s\<lparr>frame := frame s + 1\<rparr>"
  have d: "\<not> deferred cfg v t ?s1"
    using assms(3) deferred_cong [of ?s1 s cfg v t] by simp
  have sel: "selectViewState cfg v t ?s1 = (v, ?s1)"
    using d assms(2) by (simp add: selectViewState_def)
  have "throttleFields (update cfg v t s) = throttleFields (applySelected cfg t (v, ?s1))"
    using assms(1) sel by (simp add: update_unfold throttleFields_finishFrame)
  moreover have "throttleFields (applySelected cfg t (v, ?s1)) =
      (Some (stateKeyOf v), (if Some (stateKeyOf v) \<noteq> stateKey s then Some v else appliedViewState s),
       None, (if Some (stateKeyOf v) \<noteq> stateKey s then t else lastLayoutUpdateMs s))"
    using control_fields [OF control_applyViewState [of cfg t v ?s1]] assms(2)
    by (auto simp: applySelected_def throttleFields_def)
  ultimately show ?thesis by (simp add: throttleFields_def)
qed

text \<open>
  C6, as amended. Let an enabled layer with no pending view state receive two consecutive
  \<open>update\<close> calls (no load completion between them) that compute the same view state, the
  first of them not deferred. The second call does not call \<open>applyViewState\<close>: it only
  drains the queue, runs the visibility pass and refreshes the telemetry. Every request it adds
  is for a key that was waiting in the load queue when it started (for example an ancestor
  that the first call's fallback pass enqueued after its own queue drain), and every cached
  tile whose key was not waiting there keeps its attempts counter. If the load queue is empty
  or no slot is free when the second call starts, it adds no request and every cached tile
  keeps its attempts counter.
\<close>

theorem same_view_state_twice:
  assumes "enabled cfg" and "pendingViewState s = None" and "\<not> deferred cfg v t1 s"
  shows "update cfg v t2 (update cfg v t1 s) =
           finishFrame cfg v t2
             ((update cfg v t1 s)\<lparr>frame := frame (update cfg v t1 s) + 1\<rparr>) \<and>
         (\<forall>r\<in>set (requests (update cfg v t2 (update cfg v t1 s))).
             r \<in> set (requests (update cfg v t1 s)) \<or>
             fst r \<in> set (loadQueue (update cfg v t1 s))) \<and>
         (\<forall>k t. getTile (tiles (update cfg v t1 s)) k = Some t \<longrightarrow>
                 k \<notin> set (loadQueue (update cfg v t1 s)) \<longrightarrow>
                 (\<exists>t'. getTile (tiles (update cfg v t2 (update cfg v t1 s))) k = Some t' \<and>
                       attempts t' = attempts t)) \<and>
         (loadQueue (update cfg v t1 s) = [] \<or>
          maxConcurrentRequests cfg \<le> inflightCount (update cfg v t1 s) \<longrightarrow>
            requests (update cfg v t2 (update cfg v t1 s)) = requests (update cfg v t1 s) \<and>
            (\<forall>k t. getTile (tiles (update cfg v t1 s)) k = Some t \<longrightarrow>
                 (\<exists>t'. getTile (tiles (update cfg v t2 (update cfg v t1 s))) k = Some t' \<and>
                       attempts t' = attempts t)))"
proof -
  let ?s1 = "update cfg v t1 s"
  let ?s1' = "?s1\<lparr>frame := frame ?s1 + 1\<rparr>"
  let ?s2 = "update cfg v t2 ?s1"
  let ?d = "processLoadQueue cfg ?s1'"
  have f: "stateKey ?s1 = Some (stateKeyOf v)" "pendingViewState ?s1 = None"
    using update_first_applies [OF assms] by simp_all
  have u: "?s2 = finishFrame cfg v t2 ?s1'"
    by (rule update_same_key [OF assms(1) f])
  have fp: "requests ?s2 = requests ?d" "evolves cfg (frame ?d) (tiles ?d) (tiles ?s2)"
    unfolding u using finishFrame_parts [of cfg v t2 ?s1'] by simp_all
  have dr: "drainedFrom ?s1' ?d" by (rule drainedFrom_processLoadQueue)
  have same: "requests ?s1' = requests ?s1" "loadQueue ?s1' = loadQueue ?s1" "tiles ?s1' = tiles ?s1"
    "inflightCount ?s1' = inflightCount ?s1"
    by simp_all
  have req: "\<forall>r\<in>set (requests ?s2). r \<in> set (requests ?s1) \<or> fst r \<in> set (loadQueue ?s1)"
    using drainedFrom_request [OF dr] unfolding fp(1) same by blast
  have att: "\<exists>t'. getTile (tiles ?s2) k = Some t' \<and> attempts t' = attempts t"
    if "getTile (tiles ?s1) k = Some t" "k \<notin> set (loadQueue ?s1)" for k t
  proof -
    have "k \<notin> set (loadQueue ?s1')" using that(2) by simp
    from drainedFrom_tile [OF dr this] have "getTile (tiles ?d) k = Some t"
      using that(1) by simp
    then show ?thesis by (rule attempts_evolves [OF fp(2)])
  qed
  have idle: "requests ?s2 = requests ?s1 \<and>
              (\<forall>k t. getTile (tiles ?s1) k = Some t \<longrightarrow>
                 (\<exists>t'. getTile (tiles ?s2) k = Some t' \<and> attempts t' = attempts t))"
    if "loadQueue ?s1 = [] \<or> maxConcurrentRequests cfg \<le> inflightCount ?s1"
  proof -
    have d: "?d = ?s1'" by (rule processLoadQueue_idle) (use that in simp)
    show ?thesis using fp attempts_evolves [OF fp(2)] unfolding d by simp
  qed
  show ?thesis
  proof (intro conjI)
    show "?s2 = finishFrame cfg v t2 ?s1'" by (rule u)
    show "\<forall>r\<in>set (requests ?s2). r \<in> set (requests ?s1) \<or> fst r \<in> set (loadQueue ?s1)" by (rule req)
    show "\<forall>k t. getTile (tiles ?s1) k = Some t \<longrightarrow> k \<notin> set (loadQueue ?s1) \<longrightarrow>
                 (\<exists>t'. getTile (tiles ?s2) k = Some t' \<and> attempts t' = attempts t)"
      using att by blast
    show "loadQueue ?s1 = [] \<or> maxConcurrentRequests cfg \<le> inflightCount ?s1 \<longrightarrow>
            requests ?s2 = requests ?s1 \<and>
            (\<forall>k t. getTile (tiles ?s1) k = Some t \<longrightarrow>
                 (\<exists>t'. getTile (tiles ?s2) k = Some t' \<and> attempts t' = attempts t))"
      using idle by blast
  qed
qed

text \<open>
  The claim as stated fails: with one desired tile and an ancestor search depth of 1, the
  first call dispatches the desired tile and then enqueues its parent; the second call, with
  the same view state, dispatches the parent and raises its attempts counter from 0 to 1.
\<close>

lemma shallow_first_call:
  "summary (update (configOf shallowOptions) (viewAt 10 512 341 0) 0
              (initialState (configOf shallowOptions))) =
   ([((10, 512, 341), Loading, 1), ((9, 256, 170), Queued, 0)], [(9, 256, 170)],
    [((10, 512, 341), 1)], 0)"
  by code_simp

lemma shallow_second_call:
  "summary (update (configOf shallowOptions) (viewAt 10 512 341 0) 16
              (update (configOf shallowOptions) (viewAt 10 512 341 0) 0
                 (initialState (configOf shallowOptions)))) =
   ([((10, 512, 341), Loading, 1), ((9, 256, 170), Loading, 1)], [],
    [((10, 512, 341), 1), ((9, 256, 170), 1)], 0)"
  by code_simp

theorem same_view_state_twice_counterexample:
  "summary (update (configOf shallowOptions) (viewAt 10 512 341 0) 0
              (initialState (configOf shallowOptions))) =
   ([((10, 512, 341), Loading, 1), ((9, 256, 170), Queued, 0)], [(9, 256, 170)],
    [((10, 512, 341), 1)], 0) \<and>
   summary (update (configOf shallowOptions) (viewAt 10 512 341 0) 16
              (update (configOf shallowOptions) (viewAt 10 512 341 0) 0
                 (initialState (configOf shallowOptions)))) =
   ([((10, 512, 341), Loading, 1), ((9, 256, 170), Loading, 1)], [],
    [((10, 512, 341), 1), ((9, 256, 170), 1)], 0)"
  using shallow_first_call shallow_second_call by simp

theorem same_view_state_twice_witness:
  "enabled (configOf shallowOptions) \<and>
   pendingViewState (initialState (configOf shallowOptions)) = None \<and>
   \<not> deferred (configOf shallowOptions) (viewAt 10 512 341 0) 0 (initialState (configOf shallowOptions)) \<and>
   update (configOf shallowOptions) (viewAt 10 512 341 0) 16
     (update (configOf shallowOptions) (viewAt 10 512 341 0) 0 (initialState (configOf shallowOptions))) =
   finishFrame (configOf shallowOptions) (viewAt 10 512 341 0) 16
     ((update (configOf shallowOptions) (viewAt 10 512 341 0) 0 (initialState (configOf shallowOptions)))
        \<lparr>frame := frame (update (configOf shallowOptions) (viewAt 10 512 341 0) 0
                           (initialState (configOf shallowOptions))) + 1\<rparr>)"
proof -
  let ?cfg = "configOf shallowOptions"
  have en: "enabled ?cfg"
    by (simp add: configOf_def shallowOptions_def noOptions_def orElse_def Let_def)
  have p: "pendingViewState (initialState ?cfg) = None" by (simp add: initialState_def)
  have nd: "\<not> deferred ?cfg (viewAt 10 512 341 0) 0 (initialState ?cfg)"
    by (simp add: deferred_def shouldApplyNow_def initialState_def)
  note T = same_view_state_twice [OF en p nd, of 16, THEN conjunct1]
  show ?thesis by (intro conjI en p nd T)
qed






lemma cramped_run:
  "summary (run (configOf crampedOptions)
      [Update (viewAt 10 512 341 0) 0, Update (viewAt 10 520 341 0) 16,
       Update (viewAt 10 530 341 0) 32, Update (viewAt 10 520 341 0) 48]
      (initialState (configOf crampedOptions))) =
   ([((10, 512, 341), Loading, 1), ((10, 520, 341), Queued, 0)],
    [(10, 520, 341), (10, 530, 341), (10, 520, 341)],
    [((10, 512, 341), 1)], 0)"
  by code_simp

lemma two_failures_run:
  "summary (run (configOf singleTileOptions)
      [Update (viewAt 10 512 341 0) 0, LoadError 0, LoadError 0, Update (viewAt 10 512 341 0) 16]
      (initialState (configOf singleTileOptions))) =
   ([((10, 512, 341), Loading, 3)], [], [((10, 512, 341), 3)], 0)"
  by code_simp

lemma three_failures_run:
  "summary (run (configOf singleTileOptions)
      [Update (viewAt 10 512 341 0) 0, LoadError 0, LoadError 0, LoadError 0,
       Update (viewAt 10 512 341 0) 16]
      (initialState (configOf singleTileOptions))) =
   ([((10, 512, 341), Error, 3)], [], [], 1)"
  by code_simp

text \<open>
  C9 fails on the code. With one request slot and \<open>retainFrames = 0\<close>, four \<open>update\<close> calls that
  move the view from tile 512 to 520, on to 530 and back to 520 (no load completing) leave
  the key \<open>10/520/341\<close> in the load queue twice: the tile was queued, evicted by
  \<open>disposeTile\<close> (which removes the key from \<open>_queuedKeys\<close> and leaves it in \<open>_loadQueue\<close>),
  recreated and enqueued again.
\<close>

theorem load_queue_holds_key_twice:
  "loadQueue (run (configOf crampedOptions)
      [Update (viewAt 10 512 341 0) 0, Update (viewAt 10 520 341 0) 16,
       Update (viewAt 10 530 341 0) 32, Update (viewAt 10 520 341 0) 48]
      (initialState (configOf crampedOptions))) =
     [(10, 520, 341), (10, 530, 341), (10, 520, 341)] \<and>
   \<not> distinct (loadQueue (run (configOf crampedOptions)
      [Update (viewAt 10 512 341 0) 0, Update (viewAt 10 520 341 0) 16,
       Update (viewAt 10 530 341 0) 32, Update (viewAt 10 520 341 0) 48]
      (initialState (configOf crampedOptions))))"
  using cramped_run by (simp add: summary_def)

lemma retryLimit_singleTile: "retryLimit (configOf singleTileOptions) = 2"
  by (simp add: configOf_def singleTileOptions_def noOptions_def orElse_def Let_def)

text \<open>
  C2 as stated fails: with \<open>retryLimit = 2\<close> the second failure re-queues the tile, which is
  dispatched a third time; after the next \<open>update\<close> the tile is \<open>Loading\<close> with \<open>attempts = 3\<close>
  and the telemetry counts no error.
\<close>

theorem three_failures_terminal_error_counterexample:
  "retryLimit (configOf singleTileOptions) = 2 \<and>
   summary (run (configOf singleTileOptions)
      [Update (viewAt 10 512 341 0) 0, LoadError 0, LoadError 0, Update (viewAt 10 512 341 0) 16]
      (initialState (configOf singleTileOptions))) =
   ([((10, 512, 341), Loading, 3)], [], [((10, 512, 341), 3)], 0)"
  using retryLimit_singleTile two_failures_run by simp

text \<open>
  C2, as amended. With \<open>retryLimit = 2\<close> and a single desired tile whose load fails three
  times (each failure for the current attempt): after the third failure and the next
  \<open>update\<close> the tile is in \<open>Error\<close> with \<open>attempts = 3\<close>, nothing is queued or in flight, and
  the telemetry's \<open>errorCount\<close> is 1. Whatever \<open>update\<close> follows, the tile is then still in
  \<open>Error\<close> with \<open>attempts = 3\<close>, unless it was evicted (no entry, or a recreated entry with
  \<open>attempts = 0\<close>).
\<close>

theorem three_failures_terminal_error:
  "retryLimit (configOf singleTileOptions) = 2 \<and>
   summary (run (configOf singleTileOptions)
      [Update (viewAt 10 512 341 0) 0, LoadError 0, LoadError 0, LoadError 0,
       Update (viewAt 10 512 341 0) 16]
      (initialState (configOf singleTileOptions))) =
   ([((10, 512, 341), Error, 3)], [], [], 1) \<and>
   (\<forall>v now.
      case getTile (tiles (update (configOf singleTileOptions) v now
             (run (configOf singleTileOptions)
                [Update (viewAt 10 512 341 0) 0, LoadError 0, LoadError 0, LoadError 0,
                 Update (viewAt 10 512 341 0) 16]
                (initialState (configOf singleTileOptions))))) (10, 512, 341) of
        None \<Rightarrow> True
      | Some t' \<Rightarrow> (state t' = Error \<and> attempts t' = 3) \<or> attempts t' = 0)"
proof -
  let ?cfg = "configOf singleTileOptions"
  let ?s = "run ?cfg [Update (viewAt 10 512 341 0) 0, LoadError 0, LoadError 0, LoadError 0,
                      Update (viewAt 10 512 341 0) 16] (initialState ?cfg)"
  have m: "map (\<lambda>t. (key t, state t, attempts t)) (tiles ?s) = [((10, 512, 341), Error, 3)]"
    using three_failures_run by (simp add: summary_def)
  then obtain t where t: "tiles ?s = [t]" "key t = (10, 512, 341)" "state t = Error" "attempts t = 3"
    by auto
  have "getTile (tiles ?s) (10, 512, 341) = Some t" unfolding t(1) using t(2) by (simp add: getTile_def)
  then have st: "stuck ?cfg (10, 512, 341) 3 (tiles ?s)"
    using t retryLimit_singleTile by (simp add: stuck_def)
  show ?thesis
    using retryLimit_singleTile three_failures_run update_stuck [OF st] by blast
qed

theorem three_failures_terminal_error_witness:
  "summary (run (configOf singleTileOptions)
      [Update (viewAt 10 512 341 0) 0, LoadError 0, LoadError 0, LoadError 0,
       Update (viewAt 10 512 341 0) 16]
      (initialState (configOf singleTileOptions))) =
   ([((10, 512, 341), Error, 3)], [], [], 1) \<and>
   (case getTile (tiles (update (configOf singleTileOptions) (viewAt 10 512 341 0) 32
             (run (configOf singleTileOptions)
                [Update (viewAt 10 512 341 0) 0, LoadError 0, LoadError 0, LoadError 0,
                 Update (viewAt 10 512 341 0) 16]
                (initialState (configOf singleTileOptions))))) (10, 512, 341) of
        None \<Rightarrow> True
      | Some t' \<Rightarrow> (state t' = Error \<and> attempts t' = 3) \<or> attempts t' = 0)"
  using three_failures_terminal_error by blast

subsection \<open>The state key belongs to the applied view state\<close>

lemma viewConsistent_fields:
  "throttleFields s' = throttleFields s \<Longrightarrow> viewConsistent s' = viewConsistent s"
  by (simp add: throttleFields_def viewConsistent_def)

lemma viewConsistent_applySelected:
  "viewConsistent s \<Longrightarrow> viewConsistent (applySelected cfg now (v, s))"
  using control_fields [OF control_applyViewState [of cfg now v s]]
  by (simp add: applySelected_def viewConsistent_def)

lemma viewConsistent_selectViewState:
  "viewConsistent s \<Longrightarrow> viewConsistent (snd (selectViewState cfg v now s))"
  by (simp add: selectViewState_def viewConsistent_def split: option.splits)

lemma viewConsistent_update: "viewConsistent s \<Longrightarrow> viewConsistent (update cfg v now s)"
proof (cases "enabled cfg")
  case False
  assume "viewConsistent s"
  then show ?thesis using False by (simp add: update_unfold)
next
  case True
  assume a: "viewConsistent s"
  obtain v' s' where sel: "selectViewState cfg v now (s\<lparr>frame := frame s + 1\<rparr>) = (v', s')"
    by (cases "selectViewState cfg v now (s\<lparr>frame := frame s + 1\<rparr>)")
  have "viewConsistent (s\<lparr>frame := frame s + 1\<rparr>)" using a by (simp add: viewConsistent_def)
  then have "viewConsistent s'"
    using viewConsistent_selectViewState [of "s\<lparr>frame := frame s + 1\<rparr>" cfg v now] sel by simp
  then have "viewConsistent (applySelected cfg now (v', s'))" by (rule viewConsistent_applySelected)
  then have "viewConsistent (finishFrame cfg v now (applySelected cfg now (v', s')))"
    using viewConsistent_fields [OF throttleFields_finishFrame] by blast
  then show ?thesis using True sel by (simp add: update_unfold)
qed

lemma throttleFields_loadSucceeded:
  "throttleFields (loadSucceeded cfg k a s) = throttleFields s"
  unfolding loadSucceeded_def throttleFields_processLoadQueue
  by (simp add: throttleFields_def loadSucceededBody_def releaseSlot_def setTile_def Let_def
           split: option.splits)

lemma throttleFields_enqueueTileLoad:
  "throttleFields (enqueueTileLoad k s) = throttleFields s"
  by (rule throttleFields_control) simp

lemma throttleFields_loadFailed:
  "throttleFields (loadFailed cfg k a s) = throttleFields s"
  unfolding loadFailed_def throttleFields_processLoadQueue
  by (simp add: loadFailedBody_def Let_def throttleFields_enqueueTileLoad split: option.splits)
     (simp add: throttleFields_def releaseSlot_def setTile_def)

lemma viewConsistent_complete:
  assumes "\<And>k a s'. throttleFields (callback k a s') = throttleFields s'"
  shows "viewConsistent (complete callback i s) = viewConsistent s"
proof (cases "i < length (requests s)")
  case False
  then show ?thesis by (simp add: complete_def)
next
  case True
  obtain k a where r: "requests s ! i = (k, a)" by (cases "requests s ! i")
  let ?s' = "s\<lparr>requests := take i (requests s) @ drop (Suc i) (requests s)\<rparr>"
  have "viewConsistent (callback k a ?s') = viewConsistent ?s'"
    by (rule viewConsistent_fields) (rule assms)
  then show ?thesis using True r by (simp add: complete_def viewConsistent_def)
qed

lemma viewConsistent_dispose: "viewConsistent (dispose s)"
  by (simp add: dispose_def Let_def viewConsistent_def)

lemma viewConsistent_step: "viewConsistent s \<Longrightarrow> viewConsistent (step cfg e s)"
  by (cases e)
     (simp_all add: viewConsistent_update viewConsistent_dispose
        viewConsistent_complete throttleFields_loadSucceeded throttleFields_loadFailed)

lemma viewConsistent_run: "viewConsistent s \<Longrightarrow> viewConsistent (run cfg es s)"
  unfolding run_def by (induction es arbitrary: s) (auto simp: viewConsistent_step)

lemma viewConsistent_initialState: "viewConsistent (initialState cfg)"
  by (simp add: viewConsistent_def initialState_def)

subsection \<open>Queued keys are in the load queue\<close>

lemma queueCovers_upd [simp]:
  "queueCovers (s\<lparr>tiles := ts\<rparr>) = queueCovers s"
  "queueCovers (s\<lparr>frame := fr\<rparr>) = queueCovers s"
  "queueCovers (s\<lparr>stateKey := sk\<rparr>) = queueCovers s"
  "queueCovers (s\<lparr>inflightCount := n\<rparr>) = queueCovers s"
  "queueCovers (s\<lparr>lastLayoutUpdateMs := t\<rparr>) = queueCovers s"
  "queueCovers (s\<lparr>pendingViewState := p\<rparr>) = queueCovers s"
  "queueCovers (s\<lparr>appliedViewState := a\<rparr>) = queueCovers s"
  "queueCovers (s\<lparr>activeDesiredTiles := ds\<rparr>) = queueCovers s"
  "queueCovers (s\<lparr>requestedCount := c\<rparr>) = queueCovers s"
  "queueCovers (s\<lparr>debugInfo := di\<rparr>) = queueCovers s"
  "queueCovers (s\<lparr>requests := rs\<rparr>) = queueCovers s"
  by (simp_all add: queueCovers_def)

lemma queueCovers_setTile [simp]: "queueCovers (setTile t s) = queueCovers s"
  by (simp add: setTile_def)

lemma queueCovers_enqueueTileLoad: "queueCovers s \<Longrightarrow> queueCovers (enqueueTileLoad k s)"
  by (auto simp: queueCovers_def enqueueTileLoad_def setTile_def Let_def split: option.splits)

lemma queueCovers_disposeTile: "queueCovers s \<Longrightarrow> queueCovers (disposeTile k s)"
  by (auto simp: queueCovers_def disposeTile_def)

lemma queueCovers_dequeue:
  assumes "i < length (loadQueue s)" and "queueCovers s"
  shows "queueCovers (dequeue i s)"
proof -
  have "set (loadQueue s) =
          set (take i (loadQueue s) @ loadQueue s ! i # drop (Suc i) (loadQueue s))"
    by (rule arg_cong [where f = set, OF id_take_nth_drop [OF assms(1)]])
  then show ?thesis using assms(2) by (auto simp: queueCovers_def dequeue_def)
qed

lemma queueCovers_startTileLoad [simp]: "queueCovers (startTileLoad tile s) = queueCovers s"
  by (simp add: startTileLoad_def Let_def)

lemma queueCovers_processLoadQueue: "queueCovers s \<Longrightarrow> queueCovers (processLoadQueue cfg s)"
  by (rule processLoadQueue_rule) (simp_all add: queueCovers_dequeue)

lemma queueCovers_wantTile:
  "queueCovers s \<Longrightarrow> queueCovers (snd (wantTile cfg now d (w, s)))"
  by (simp add: wantTile_def Let_def queueCovers_enqueueTileLoad)

lemma queueCovers_fold_wantTile:
  "queueCovers s \<Longrightarrow> queueCovers (snd (fold (wantTile cfg now) ds (w, s)))"
proof (induction ds arbitrary: w s)
  case Nil
  then show ?case by simp
next
  case (Cons d ds)
  obtain w' s' where st: "wantTile cfg now d (w, s) = (w', s')" by (cases "wantTile cfg now d (w, s)")
  have "queueCovers s'" using queueCovers_wantTile [OF Cons.prems, of cfg now d w] st by simp
  then show ?case using Cons.IH [of s' w'] st by simp
qed

lemma queueCovers_fadeUnwanted [simp]: "queueCovers (fadeUnwanted cfg w s) = queueCovers s"
  by (simp add: fadeUnwanted_def)

lemma queueCovers_evictLoop: "queueCovers s \<Longrightarrow> queueCovers (evictLoop cfg cs s)"
  by (induction cs arbitrary: s) (auto simp: queueCovers_disposeTile)

lemma queueCovers_fold_stale:
  "queueCovers s \<Longrightarrow>
   queueCovers (fold (\<lambda>k st. case getTile (tiles st) k of None \<Rightarrow> st | Some tile \<Rightarrow> disposeTile k st) ks s)"
  by (induction ks arbitrary: s) (auto simp: queueCovers_disposeTile split: option.splits)

lemma queueCovers_evictTiles: "queueCovers s \<Longrightarrow> queueCovers (evictTiles cfg w s)"
  by (simp add: evictTiles_def Let_def queueCovers_fold_stale queueCovers_evictLoop)

lemma queueCovers_applyViewState:
  assumes "queueCovers s"
  shows "queueCovers (applyViewState cfg now v s)"
proof -
  let ?ds = "collectDesiredTiles cfg v"
  let ?s1 = "s\<lparr>requestedCount := length ?ds, activeDesiredTiles := ?ds\<rparr>"
  obtain w s2 where f: "fold (wantTile cfg now) ?ds ({}, ?s1) = (w, s2)"
    by (cases "fold (wantTile cfg now) ?ds ({}, ?s1)")
  have "queueCovers ?s1" using assms by simp
  then have "queueCovers s2" using queueCovers_fold_wantTile [of ?s1 cfg now ?ds "{}"] f by simp
  then show ?thesis using f
    by (simp add: applyViewState_def Let_def queueCovers_evictTiles)
qed

lemma queueCovers_findReadyAncestorLoop:
  "queueCovers s \<Longrightarrow> queueCovers (snd (snd (findReadyAncestorLoop cfg now n tx ty tz touched s)))"
proof (induction n arbitrary: tx ty tz touched s)
  case 0
  then show ?case by simp
next
  case (Suc n)
  show ?case using Suc.prems
    by (simp add: Let_def Suc.IH queueCovers_enqueueTileLoad)
qed

lemma queueCovers_visitDesired:
  assumes "queueCovers s"
  shows "queueCovers (snd (snd (visitDesired cfg now d (vis, touched, s))))"
proof (cases "findReadyAncestor cfg now (dTileId d) touched s")
  case (fields fk touched' s')
  have "queueCovers s'"
    using queueCovers_findReadyAncestorLoop [OF assms, of cfg now "nat (maxParentSearchDepth cfg)"
        "tileX (dTileId d)" "tileY (dTileId d)" "tileZ (dTileId d)" touched] fields
    by (simp add: findReadyAncestor_def)
  then show ?thesis using fields assms
    by (simp add: visitDesired_def split: option.splits)
qed

lemma queueCovers_fold_visitDesired:
  "queueCovers s \<Longrightarrow> queueCovers (snd (snd (fold (visitDesired cfg now) ds (vis, touched, s))))"
proof (induction ds arbitrary: vis touched s)
  case Nil
  then show ?case by simp
next
  case (Cons d ds)
  obtain vis' touched' s' where st: "visitDesired cfg now d (vis, touched, s) = (vis', touched', s')"
    by (cases "visitDesired cfg now d (vis, touched, s)")
  have "queueCovers s'" using queueCovers_visitDesired [OF Cons.prems, of cfg now d vis touched] st by simp
  then show ?case using Cons.IH [of s' vis' touched'] st by simp
qed

lemma queueCovers_updateProgressiveVisibility:
  assumes "queueCovers s"
  shows "queueCovers (updateProgressiveVisibility cfg now s)"
proof -
  obtain vis touched s1 where f: "fold (visitDesired cfg now) (activeDesiredTiles s) ({}, {}, s) = (vis, touched, s1)"
    by (cases "fold (visitDesired cfg now) (activeDesiredTiles s) ({}, {}, s)")
  have "queueCovers s1"
    using queueCovers_fold_visitDesired [OF assms, of cfg now "activeDesiredTiles s" "{}" "{}"] f by simp
  then show ?thesis using f by (simp add: updateProgressiveVisibility_def)
qed

lemma queueCovers_finishFrame: "queueCovers s \<Longrightarrow> queueCovers (finishFrame cfg v now s)"
  by (simp add: finishFrame_def Let_def refreshDebugInfo_def
        queueCovers_updateProgressiveVisibility queueCovers_processLoadQueue)

lemma queueCovers_update: "queueCovers s \<Longrightarrow> queueCovers (update cfg v now s)"
  by (simp add: update_unfold selectViewState_def applySelected_def queueCovers_finishFrame
        queueCovers_applyViewState split: option.splits)

lemma queueCovers_loadSucceeded: "queueCovers s \<Longrightarrow> queueCovers (loadSucceeded cfg k a s)"
  by (simp add: loadSucceeded_def loadSucceededBody_def releaseSlot_def Let_def
        queueCovers_processLoadQueue split: option.splits)

lemma queueCovers_loadFailed: "queueCovers s \<Longrightarrow> queueCovers (loadFailed cfg k a s)"
  by (simp add: loadFailed_def loadFailedBody_def releaseSlot_def Let_def
        queueCovers_processLoadQueue queueCovers_enqueueTileLoad split: option.splits)

lemma queueCovers_complete:
  assumes "queueCovers s" and "\<And>k a s'. queueCovers s' \<Longrightarrow> queueCovers (callback k a s')"
  shows "queueCovers (complete callback i s)"
  using assms by (simp add: complete_def split: prod.splits)

lemma queueCovers_dispose: "queueCovers (dispose s)"
proof -
  have f: "queueCovers (fold (\<lambda>tile st. disposeTile (key tile) st) ts s')" if "queueCovers s'" for ts s'
    using that by (induction ts arbitrary: s') (auto simp: queueCovers_disposeTile)
  have "queueCovers (s\<lparr>loadQueue := [], queuedKeys := {}\<rparr>)" by (simp add: queueCovers_def)
  then show ?thesis by (simp add: dispose_def Let_def f)
qed

lemma queueCovers_step: "queueCovers s \<Longrightarrow> queueCovers (step cfg e s)"
  by (cases e)
     (simp_all add: queueCovers_update queueCovers_dispose queueCovers_complete
        queueCovers_loadSucceeded queueCovers_loadFailed)

lemma queueCovers_run: "queueCovers s \<Longrightarrow> queueCovers (run cfg es s)"
  unfolding run_def by (induction es arbitrary: s) (auto simp: queueCovers_step)

lemma queueCovers_initialState: "queueCovers (initialState cfg)"
  by (simp add: queueCovers_def initialState_def)

text \<open>In every state that a constructed layer reaches, the queued keys are in the load queue.\<close>

lemma queuedKeys_in_loadQueue:
  assumes "constructor opts = Inr (cfg, s0)"
  shows "queuedKeys (run cfg es s0) \<subseteq> set (loadQueue (run cfg es s0))"
proof -
  have "s0 = initialState cfg" using assms by (auto simp: constructor_def Let_def)
  then have "queueCovers (run cfg es s0)"
    using queueCovers_run [OF queueCovers_initialState] by simp
  then show ?thesis by (simp add: queueCovers_def)
qed

subsection \<open>Desired tiles are cached\<close>

lemma keeps_refl [simp]: "keeps ts ts"
  by (simp add: keeps_def)

lemma keepsD: "keeps ts ts' \<Longrightarrow> getTile ts k \<noteq> None \<Longrightarrow> getTile ts' k \<noteq> None"
  unfolding keeps_def by blast

lemma keeps_trans: "keeps ts ts' \<Longrightarrow> keeps ts' ts'' \<Longrightarrow> keeps ts ts''"
  unfolding keeps_def by blast

lemma keeps_evolves: "evolves cfg fr ts ts' \<Longrightarrow> keeps ts ts'"
  unfolding keeps_def using evolves_old by fastforce

lemma keeps_putTile: "keeps ts (putTile t ts)"
  by (simp add: keeps_def getTile_putTile)

lemma keeps_enqueueTileLoad: "keeps (tiles s) (tiles (enqueueTileLoad k s))"
  by (simp add: enqueueTileLoad_def setTile_def Let_def keeps_putTile split: option.splits)

lemma keeps_processLoadQueue: "keeps (tiles s) (tiles (processLoadQueue cfg s))"
proof (rule processLoadQueue_rule [where P = "\<lambda>s'. keeps (tiles s) (tiles s')"])
  show "keeps (tiles s) (tiles s)" by simp
next
  fix s' :: layerState and i
  assume "keeps (tiles s) (tiles s')"
  then show "keeps (tiles s) (tiles (dequeue i s'))" by (simp add: dequeue_def)
next
  fix s' :: layerState and tile
  assume "keeps (tiles s) (tiles s')"
  then show "keeps (tiles s) (tiles (startTileLoad tile s'))"
    using keeps_trans [OF _ keeps_putTile] by (simp add: startTileLoad_def Let_def)
qed

lemma desired_processLoadQueue:
  "activeDesiredTiles (processLoadQueue cfg s) = activeDesiredTiles s"
  by (rule processLoadQueue_rule) (simp_all add: dequeue_def startTileLoad_def Let_def setTile_def)

lemma desiredCached_keeps:
  "activeDesiredTiles s' = activeDesiredTiles s \<Longrightarrow> keeps (tiles s) (tiles s') \<Longrightarrow>
   desiredCached s \<Longrightarrow> desiredCached s'"
  unfolding desiredCached_def keeps_def by metis

lemma wantTile_present:
  "getTile (tiles (snd (wantTile cfg now d (w, s)))) (dKey d) \<noteq> None"
proof -
  let ?k = "dKey d"
  let ?tile0 = "case getTile (tiles s) ?k of Some t \<Rightarrow> t | None \<Rightarrow> createTileShell s now (dTileId d) ?k"
  let ?tile = "?tile0\<lparr>priority := enat (dPriority d), lastWantedFrame := frame s, lastTouchedFrame := frame s\<rparr>"
  let ?s1 = "setTile ?tile s"
  have key: "key ?tile = ?k"
    by (auto simp: createTileShell_def dest: getTile_Some_key split: option.splits)
  have p: "getTile (tiles ?s1) ?k \<noteq> None" using key by (simp add: getTile_putTile)
  have q: "getTile (tiles (enqueueTileLoad k' ?s1)) ?k \<noteq> None" for k'
    by (rule keepsD [OF keeps_enqueueTileLoad p])
  have "snd (wantTile cfg now d (w, s)) =
          (if state ?tile = Idle then enqueueTileLoad (key ?tile) ?s1
           else if state ?tile = Error \<and> int (attempts ?tile) \<le> retryLimit cfg
           then enqueueTileLoad (key ?tile) ?s1 else ?s1)"
    by (simp add: wantTile_def Let_def)
  then show ?thesis using p q by presburger
qed

lemma fold_wantTile_present:
  "d \<in> set ds \<Longrightarrow> getTile (tiles (snd (fold (wantTile cfg now) ds (w, s)))) (dKey d) \<noteq> None"
proof (induction ds arbitrary: w s)
  case Nil
  then show ?case by simp
next
  case (Cons d' ds)
  obtain w' s' where st: "wantTile cfg now d' (w, s) = (w', s')" by (cases "wantTile cfg now d' (w, s)")
  show ?case
  proof (cases "d \<in> set ds")
    case True
    then show ?thesis using Cons.IH [where s = s' and w = w'] st by simp
  next
    case False
    then have d: "d' = d" using Cons.prems by simp
    have p: "getTile (tiles s') (dKey d) \<noteq> None"
      using wantTile_present [of cfg now d w s] st d by simp
    have "keeps (tiles s') (tiles (snd (fold (wantTile cfg now) ds (w', s'))))"
      by (rule keeps_evolves) (rule evolves_fold_wantTile)
    then have "getTile (tiles (snd (fold (wantTile cfg now) ds (w', s')))) (dKey d) \<noteq> None"
      using p by (rule keepsD)
    then show ?thesis using st by simp
  qed
qed

lemma getTile_disposeTile:
  "getTile (tiles (disposeTile k s)) k' = (if k' = k then None else getTile (tiles s) k')"
  by (simp add: disposeTile_def getTile_deleteTile)

lemma evictLoop_spares:
  "k \<notin> key ` set cs \<Longrightarrow> getTile (tiles (evictLoop cfg cs s)) k = getTile (tiles s) k"
  by (induction cs arbitrary: s) (auto simp: getTile_disposeTile)

lemma fold_stale_spares:
  "k \<notin> set ks \<Longrightarrow>
   getTile (tiles (fold (\<lambda>k st. case getTile (tiles st) k of None \<Rightarrow> st | Some tile \<Rightarrow> disposeTile k st)
                     ks s)) k = getTile (tiles s) k"
  by (induction ks arbitrary: s) (auto simp: getTile_disposeTile split: option.splits)

lemma evictTiles_spares:
  assumes "k \<in> w"
  shows "getTile (tiles (evictTiles cfg w s)) k = getTile (tiles s) k"
proof -
  let ?stale = "map key (filter (\<lambda>tile. \<not> (key tile \<in> w) \<and> state tile \<noteq> Loading \<and>
                                   frame s - lastWantedFrame tile > retainFrames cfg) (tiles s))"
  let ?s1 = "fold (\<lambda>k st. case getTile (tiles st) k of None \<Rightarrow> st | Some tile \<Rightarrow> disposeTile k st) ?stale s"
  let ?cs = "sortBy evictBefore (filter (\<lambda>tile. \<not> (key tile \<in> w) \<and> state tile \<noteq> Loading) (tiles ?s1))"
  have a: "k \<notin> set ?stale" using assms by auto
  have b: "k \<notin> key ` set ?cs" using assms by (auto simp: set_sortBy)
  have "getTile (tiles ?s1) k = getTile (tiles s) k" by (rule fold_stale_spares [OF a])
  moreover have "getTile (tiles (evictLoop cfg ?cs ?s1)) k = getTile (tiles ?s1) k"
    by (rule evictLoop_spares [OF b])
  ultimately show ?thesis by (simp add: evictTiles_def Let_def)
qed

lemma desiredCached_applyViewState: "desiredCached (applyViewState cfg now v s)"
proof -
  let ?ds = "collectDesiredTiles cfg v"
  let ?s1 = "s\<lparr>requestedCount := length ?ds, activeDesiredTiles := ?ds\<rparr>"
  obtain w s2 where f: "fold (wantTile cfg now) ?ds ({}, ?s1) = (w, s2)"
    by (cases "fold (wantTile cfg now) ?ds ({}, ?s1)")
  have w: "w = dKey ` set ?ds" using fst_fold_wantTile [of cfg now ?ds "{}" ?s1] f by simp
  let ?s4 = "(fadeUnwanted cfg w s2)\<lparr>stateKey := Some (stateKeyOf v)\<rparr>"
  have a: "applyViewState cfg now v s = evictTiles cfg w ?s4"
    using f by (simp add: applyViewState_def Let_def)
  have ds: "activeDesiredTiles (applyViewState cfg now v s) = ?ds"
    using control_fields [OF control_applyViewState [of cfg now v s]] by simp
  have k4: "keeps (tiles s2) (tiles ?s4)"
    using keeps_evolves [OF evolves_fadeUnwanted [of cfg "frame s" s2 cfg w]] by simp
  have "getTile (tiles (applyViewState cfg now v s)) (dKey d) \<noteq> None" if d: "d \<in> set ?ds" for d
  proof -
    have "getTile (tiles s2) (dKey d) \<noteq> None"
      using fold_wantTile_present [OF d, of cfg now "{}" ?s1] f by simp
    then have "getTile (tiles ?s4) (dKey d) \<noteq> None" by (rule keepsD [OF k4])
    moreover have "dKey d \<in> w" using d w by simp
    ultimately show ?thesis unfolding a by (simp add: evictTiles_spares)
  qed
  then show ?thesis unfolding desiredCached_def ds by blast
qed

lemma desiredCached_processLoadQueue: "desiredCached s \<Longrightarrow> desiredCached (processLoadQueue cfg s)"
  by (rule desiredCached_keeps [OF desired_processLoadQueue keeps_processLoadQueue])

lemma desiredCached_updateProgressiveVisibility:
  "desiredCached s \<Longrightarrow> desiredCached (updateProgressiveVisibility cfg now s)"
proof (rule desiredCached_keeps)
  show "activeDesiredTiles (updateProgressiveVisibility cfg now s) = activeDesiredTiles s"
    using control_fields [OF control_updateProgressiveVisibility [of cfg now s]] by simp
  show "keeps (tiles s) (tiles (updateProgressiveVisibility cfg now s))"
    by (rule keeps_evolves) (rule evolves_updateProgressiveVisibility)
qed

lemma desiredCached_refreshDebugInfo [simp]:
  "desiredCached (refreshDebugInfo cfg z cx cy r s) = desiredCached s"
  by (simp add: desiredCached_def refreshDebugInfo_def Let_def)

lemma desiredCached_finishFrame: "desiredCached s \<Longrightarrow> desiredCached (finishFrame cfg v now s)"
  by (simp add: finishFrame_def Let_def desiredCached_updateProgressiveVisibility
        desiredCached_processLoadQueue)

lemma desiredCached_applySelected:
  "desiredCached s \<Longrightarrow> desiredCached (applySelected cfg now (v, s))"
  using desiredCached_applyViewState [of cfg now v s]
  by (simp add: applySelected_def desiredCached_def)

lemma desiredCached_selectViewState:
  "desiredCached s \<Longrightarrow> desiredCached (snd (selectViewState cfg v now s))"
  by (simp add: selectViewState_def desiredCached_def split: option.splits)

text \<open>The state in which \<open>update\<close> calls the visibility pass.\<close>

lemma desiredCached_beforeVisibility:
  assumes "desiredCached s"
  shows "desiredCached
           (processLoadQueue cfg
              (applySelected cfg now (selectViewState cfg v now (s\<lparr>frame := frame s + 1\<rparr>))))"
proof -
  obtain v' s' where sel: "selectViewState cfg v now (s\<lparr>frame := frame s + 1\<rparr>) = (v', s')"
    by (cases "selectViewState cfg v now (s\<lparr>frame := frame s + 1\<rparr>)")
  have "desiredCached (s\<lparr>frame := frame s + 1\<rparr>)" using assms by (simp add: desiredCached_def)
  then have "desiredCached s'"
    using desiredCached_selectViewState [of "s\<lparr>frame := frame s + 1\<rparr>" cfg v now] sel by simp
  then have "desiredCached (applySelected cfg now (v', s'))" by (rule desiredCached_applySelected)
  then show ?thesis unfolding sel by (rule desiredCached_processLoadQueue)
qed

lemma desiredCached_update: "desiredCached s \<Longrightarrow> desiredCached (update cfg v now s)"
proof (cases "enabled cfg")
  case False
  assume "desiredCached s"
  then show ?thesis using False by (simp add: update_unfold)
next
  case True
  assume a: "desiredCached s"
  let ?m = "processLoadQueue cfg
              (applySelected cfg now (selectViewState cfg v now (s\<lparr>frame := frame s + 1\<rparr>)))"
  have "desiredCached ?m" by (rule desiredCached_beforeVisibility [OF a])
  then have "desiredCached (updateProgressiveVisibility cfg now ?m)"
    by (rule desiredCached_updateProgressiveVisibility)
  then show ?thesis using True by (simp add: update_unfold finishFrame_def Let_def)
qed

lemma desiredCached_loadSucceeded: "desiredCached s \<Longrightarrow> desiredCached (loadSucceeded cfg k a s)"
proof -
  assume a: "desiredCached s"
  have "desiredCached (loadSucceededBody k a s)"
  proof (rule desiredCached_keeps [OF _ _ a])
    show "activeDesiredTiles (loadSucceededBody k a s) = activeDesiredTiles s"
      by (simp add: loadSucceededBody_def releaseSlot_def setTile_def Let_def split: option.splits)
    show "keeps (tiles s) (tiles (loadSucceededBody k a s))"
      by (simp add: loadSucceededBody_def releaseSlot_def Let_def keeps_putTile split: option.splits)
  qed
  then show ?thesis unfolding loadSucceeded_def by (rule desiredCached_processLoadQueue)
qed

lemma desiredCached_loadFailed: "desiredCached s \<Longrightarrow> desiredCached (loadFailed cfg k a s)"
proof -
  assume a: "desiredCached s"
  have e: "activeDesiredTiles (enqueueTileLoad k' s') = activeDesiredTiles s'" for k' s'
    using control_fields [OF control_enqueueTileLoad [of k' s']] by simp
  have "desiredCached (loadFailedBody cfg k a s)"
  proof (rule desiredCached_keeps [OF _ _ a])
    show "activeDesiredTiles (loadFailedBody cfg k a s) = activeDesiredTiles s"
      by (simp add: loadFailedBody_def releaseSlot_def setTile_def Let_def e split: option.splits)
    show "keeps (tiles s) (tiles (loadFailedBody cfg k a s))"
    proof (cases "getTile (tiles s) k")
      case None
      then show ?thesis by (simp add: loadFailedBody_def releaseSlot_def Let_def)
    next
      case (Some current)
      let ?s1 = "releaseSlot s"
      let ?s2 = "setTile (current\<lparr>state := Error\<rparr>) ?s1"
      let ?s3 = "setTile (current\<lparr>state := Idle\<rparr>) ?s2"
      have k2: "keeps (tiles s) (tiles ?s2)" by (simp add: keeps_putTile)
      have k3: "keeps (tiles s) (tiles ?s3)"
        using keeps_trans [OF k2 keeps_putTile] by simp
      have k4: "keeps (tiles s) (tiles (enqueueTileLoad (key current) ?s3))"
        by (rule keeps_trans [OF k3 keeps_enqueueTileLoad])
      show ?thesis using Some k2 k4
        by (simp add: loadFailedBody_def Let_def)
    qed
  qed
  then show ?thesis unfolding loadFailed_def by (rule desiredCached_processLoadQueue)
qed

lemma desiredCached_complete:
  assumes "desiredCached s" and "\<And>k a s'. desiredCached s' \<Longrightarrow> desiredCached (callback k a s')"
  shows "desiredCached (complete callback i s)"
proof (cases "i < length (requests s)")
  case False
  then show ?thesis using assms(1) by (simp add: complete_def)
next
  case True
  obtain k a where r: "requests s ! i = (k, a)" by (cases "requests s ! i")
  let ?s' = "s\<lparr>requests := take i (requests s) @ drop (Suc i) (requests s)\<rparr>"
  have "desiredCached ?s'" using assms(1) by (simp add: desiredCached_def)
  then have "desiredCached (callback k a ?s')" by (rule assms(2))
  then show ?thesis using True r by (simp add: complete_def)
qed

lemma desiredCached_dispose: "desiredCached (dispose s)"
  by (simp add: dispose_def Let_def desiredCached_def)

lemma desiredCached_step: "desiredCached s \<Longrightarrow> desiredCached (step cfg e s)"
  by (cases e)
     (simp_all add: desiredCached_update desiredCached_dispose desiredCached_complete
        desiredCached_loadSucceeded desiredCached_loadFailed)

lemma desiredCached_run: "desiredCached s \<Longrightarrow> desiredCached (run cfg es s)"
  unfolding run_def by (induction es arbitrary: s) (auto simp: desiredCached_step)

lemma desiredCached_initialState: "desiredCached (initialState cfg)"
  by (simp add: desiredCached_def initialState_def)

lemma update_visibility:
  "enabled cfg \<Longrightarrow>
   tiles (update cfg v now s) =
     tiles (updateProgressiveVisibility cfg now (beforeVisibility cfg v now s))"
  by (simp add: update_unfold finishFrame_def Let_def beforeVisibility_def)

lemma frame_update:
  "enabled cfg \<Longrightarrow> frame (update cfg v now s) = frame (beforeVisibility cfg v now s)"
  using frame_control [OF control_updateProgressiveVisibility [of cfg now "beforeVisibility cfg v now s"]]
  by (simp add: update_unfold finishFrame_def Let_def beforeVisibility_def refreshDebugInfo_def)

lemma retainFrames_configOf: "0 \<le> retainFrames (configOf opts)"
  by (simp add: configOf_def Let_def)

lemma readyAt_cases:
  "readyAt ts k \<Longrightarrow> \<exists>t. getTile ts k = Some t \<and> state t = Ready"
  by (simp add: readyAt_def split: option.splits)

text \<open>
  C7. Take any frame of a constructed, enabled layer: an \<open>update\<close> call in a state reached by
  any sequence of events, and the state \<open>m\<close> in which that call runs the visibility pass. Let
  a tile of the active desired set be not \<open>Ready\<close> in \<open>m\<close>, and let its \<open>j\<close>-th ancestor (\<open>j\<close>
  steps of \<open>x/2, y/2, z-1\<close>, with \<open>j\<close> at most \<open>maxParentSearchDepth\<close> and the ancestor's zoom
  not below \<open>minZoom\<close>) be \<open>Ready\<close> while no nearer ancestor is. Then the tiles that \<open>update\<close>
  leaves are those of the visibility pass on \<open>m\<close>, and among them that ancestor is still
  \<open>Ready\<close>, its \<open>targetOpacity\<close> is the configured opacity and its \<open>lastWantedFrame\<close> is the
  current frame.
\<close>

theorem ready_ancestor_marked_visible:
  assumes "constructor opts = Inr (cfg, s0)" and "enabled cfg"
    and "m = beforeVisibility cfg v now (run cfg es s0)"
    and "d \<in> set (activeDesiredTiles m)" and "\<not> readyAt (tiles m) (dKey d)"
    and "1 \<le> j" and "int j \<le> maxParentSearchDepth cfg"
    and "minZoom cfg \<le> tileZ (dTileId d) - int j"
    and "readyAt (tiles m) (tileKey (ancestorOf (dTileId d) j))"
    and "\<forall>i. 1 \<le> i \<and> i < j \<longrightarrow> \<not> readyAt (tiles m) (tileKey (ancestorOf (dTileId d) i))"
  shows "tiles (update cfg v now (run cfg es s0)) = tiles (updateProgressiveVisibility cfg now m) \<and>
         (\<exists>a'. getTile (tiles (update cfg v now (run cfg es s0)))
                  (tileKey (ancestorOf (dTileId d) j)) = Some a' \<and>
               state a' = Ready \<and> targetOpacity a' = opacity cfg \<and>
               lastWantedFrame a' = frame (update cfg v now (run cfg es s0)))"
proof -
  let ?s = "run cfg es s0"
  have c: "cfg = configOf opts" and s0: "s0 = initialState cfg"
    using assms(1) by (auto simp: constructor_def Let_def)
  have r: "0 \<le> retainFrames cfg" unfolding c by (rule retainFrames_configOf)
  have "desiredCached ?s" unfolding s0 by (rule desiredCached_run [OF desiredCached_initialState])
  then have "desiredCached m" unfolding assms(3) beforeVisibility_def
    by (rule desiredCached_beforeVisibility)
  then obtain cur where cur: "getTile (tiles m) (dKey d) = Some cur"
    using assms(4) unfolding desiredCached_def by blast
  have nr: "state cur \<noteq> Ready" using assms(5) cur by (simp add: readyAt_def)
  obtain a where a: "getTile (tiles m) (tileKey (ancestorOf (dTileId d) j)) = Some a" "state a = Ready"
    using readyAt_cases [OF assms(9)] by blast
  have t: "tiles (update cfg v now ?s) = tiles (updateProgressiveVisibility cfg now m)"
    unfolding assms(3) by (rule update_visibility [OF assms(2)])
  have f: "frame (update cfg v now ?s) = frame m"
    unfolding assms(3) by (rule frame_update [OF assms(2)])
  show ?thesis
    unfolding t f
    using visibility_marks_ready_ancestor [OF r assms(4) cur nr assms(6) assms(7) assms(8) a assms(10), of now]
    by simp
qed

lemma twoLevel_config:
  "enabled (configOf twoLevelOptions)" "maxParentSearchDepth (configOf twoLevelOptions) = 2"
  "minZoom (configOf twoLevelOptions) = 0"
  by (simp_all add: configOf_def twoLevelOptions_def noOptions_def orElse_def Let_def clampInt_def)

lemma twoLevel_frame:
  "mkDesired 10 512 341 0 0 \<in>
     set (activeDesiredTiles
            (beforeVisibility (configOf twoLevelOptions) (viewAt 10 512 341 0) 32
               (run (configOf twoLevelOptions) twoLevelEvents
                  (initialState (configOf twoLevelOptions)))))"
  "map (\<lambda>t. (key t, state t))
     (tiles (beforeVisibility (configOf twoLevelOptions) (viewAt 10 512 341 0) 32
               (run (configOf twoLevelOptions) twoLevelEvents
                  (initialState (configOf twoLevelOptions))))) =
   [((10, 512, 341), Loading), ((9, 256, 170), Loading), ((8, 128, 85), Ready)]"
  by code_simp+

lemma readyAt_map_of:
  "readyAt ts k \<longleftrightarrow> map_of (map (\<lambda>t. (key t, state t)) ts) k = Some Ready"
  by (induction ts) (auto simp: readyAt_def getTile_def)

theorem ready_ancestor_marked_visible_witness:
  "constructor twoLevelOptions =
     Inr (configOf twoLevelOptions, initialState (configOf twoLevelOptions)) \<and>
   enabled (configOf twoLevelOptions) \<and>
   mkDesired 10 512 341 0 0 \<in>
     set (activeDesiredTiles
            (beforeVisibility (configOf twoLevelOptions) (viewAt 10 512 341 0) 32
               (run (configOf twoLevelOptions) twoLevelEvents
                  (initialState (configOf twoLevelOptions))))) \<and>
   \<not> readyAt (tiles (beforeVisibility (configOf twoLevelOptions) (viewAt 10 512 341 0) 32
                       (run (configOf twoLevelOptions) twoLevelEvents
                          (initialState (configOf twoLevelOptions)))))
       (dKey (mkDesired 10 512 341 0 0)) \<and>
   int 2 \<le> maxParentSearchDepth (configOf twoLevelOptions) \<and>
   minZoom (configOf twoLevelOptions) \<le> tileZ (dTileId (mkDesired 10 512 341 0 0)) - int 2 \<and>
   readyAt (tiles (beforeVisibility (configOf twoLevelOptions) (viewAt 10 512 341 0) 32
                     (run (configOf twoLevelOptions) twoLevelEvents
                        (initialState (configOf twoLevelOptions)))))
     (tileKey (ancestorOf (dTileId (mkDesired 10 512 341 0 0)) 2)) \<and>
   \<not> readyAt (tiles (beforeVisibility (configOf twoLevelOptions) (viewAt 10 512 341 0) 32
                       (run (configOf twoLevelOptions) twoLevelEvents
                          (initialState (configOf twoLevelOptions)))))
       (tileKey (ancestorOf (dTileId (mkDesired 10 512 341 0 0)) 1)) \<and>
   (\<exists>a'. getTile (tiles (update (configOf twoLevelOptions) (viewAt 10 512 341 0) 32
                           (run (configOf twoLevelOptions) twoLevelEvents
                              (initialState (configOf twoLevelOptions)))))
            (tileKey (ancestorOf (dTileId (mkDesired 10 512 341 0 0)) 2)) = Some a' \<and>
         state a' = Ready \<and> targetOpacity a' = opacity (configOf twoLevelOptions) \<and>
         lastWantedFrame a' =
           frame (update (configOf twoLevelOptions) (viewAt 10 512 341 0) 32
                    (run (configOf twoLevelOptions) twoLevelEvents
                       (initialState (configOf twoLevelOptions)))))"
proof -
  let ?cfg = "configOf twoLevelOptions"
  let ?v = "viewAt 10 512 341 0"
  let ?m = "beforeVisibility ?cfg ?v 32 (run ?cfg twoLevelEvents (initialState ?cfg))"
  let ?d = "mkDesired 10 512 341 0 0"
  have h1: "constructor twoLevelOptions = Inr (?cfg, initialState ?cfg)"
    by (simp add: constructor_def Let_def)
  have h2: "enabled ?cfg" by (rule twoLevel_config(1))
  have h4: "?d \<in> set (activeDesiredTiles ?m)" by (rule twoLevel_frame(1))
  have ks: "dKey ?d = (10, 512, 341)" "tileKey (ancestorOf (dTileId ?d) 1) = (9, 256, 170)"
    "tileKey (ancestorOf (dTileId ?d) 2) = (8, 128, 85)"
    by (simp_all add: mkDesired_def parentTile_def tileKey_def eval_nat_numeral)
  have h5: "\<not> readyAt (tiles ?m) (dKey ?d)"
    unfolding ks readyAt_map_of twoLevel_frame(2) by simp
  have h6: "1 \<le> (2::nat)" by simp
  have h7: "int 2 \<le> maxParentSearchDepth ?cfg" by (simp add: twoLevel_config)
  have h8: "minZoom ?cfg \<le> tileZ (dTileId ?d) - int 2"
    by (simp add: twoLevel_config mkDesired_def)
  have h9: "readyAt (tiles ?m) (tileKey (ancestorOf (dTileId ?d) 2))"
    unfolding ks readyAt_map_of twoLevel_frame(2) by simp
  have h11: "\<not> readyAt (tiles ?m) (tileKey (ancestorOf (dTileId ?d) 1))"
    unfolding ks readyAt_map_of twoLevel_frame(2) by simp
  have h10: "\<forall>i. 1 \<le> i \<and> i < (2::nat) \<longrightarrow>
               \<not> readyAt (tiles ?m) (tileKey (ancestorOf (dTileId ?d) i))"
  proof (intro allI impI)
    fix i :: nat
    assume "1 \<le> i \<and> i < 2"
    then have "i = 1" by simp
    then show "\<not> readyAt (tiles ?m) (tileKey (ancestorOf (dTileId ?d) i))" using h11 by simp
  qed
  note W = ready_ancestor_marked_visible [OF h1 h2 refl h4 h5 h6 h7 h8 h9 h10, THEN conjunct2]
  show ?thesis by (intro conjI h1 h2 h4 h5 h7 h8 h9 h11 W)
qed

lemma throttleFields_complete:
  assumes "\<And>k a s'. throttleFields (callback k a s') = throttleFields s'"
  shows "throttleFields (complete callback i s) = throttleFields s"
proof (cases "i < length (requests s)")
  case False
  then show ?thesis by (simp add: complete_def)
next
  case True
  obtain k a where r: "requests s ! i = (k, a)" by (cases "requests s ! i")
  let ?s' = "s\<lparr>requests := take i (requests s) @ drop (Suc i) (requests s)\<rparr>"
  have "throttleFields (callback k a ?s') = throttleFields ?s'" by (rule assms)
  then show ?thesis using True r by (simp add: complete_def throttleFields_def)
qed

lemma run_Cons: "run cfg (e # es) s = run cfg es (step cfg e s)"
  by (simp add: run_def)

lemma run_append: "run cfg (es @ es') s = run cfg es' (run cfg es s)"
  by (simp add: run_def)

lemma deferred_step_fields:
  assumes "enabled cfg" and "viewConsistent s" and "allDeferred cfg s [e]"
  shows "throttleFields (step cfg e s) =
           (stateKey s, appliedViewState s,
            (case e of Update v t \<Rightarrow> Some v | _ \<Rightarrow> pendingViewState s), lastLayoutUpdateMs s)"
proof (cases e)
  case (Update v t)
  then have "deferred cfg v t s" using assms(3) by simp
  then show ?thesis using Update update_deferred_fields [OF assms(1,2)] by simp
next
  case (LoadSuccess i)
  then show ?thesis
    using throttleFields_complete [of "loadSucceeded cfg" i s]
    by (simp add: throttleFields_loadSucceeded) (simp add: throttleFields_def)
next
  case (LoadError i)
  then show ?thesis
    using throttleFields_complete [of "loadFailed cfg" i s]
    by (simp add: throttleFields_loadFailed) (simp add: throttleFields_def)
next
  case Dispose
  then show ?thesis using assms(3) by simp
qed

lemma deferred_run_fields:
  assumes "enabled cfg"
  shows "viewConsistent s \<Longrightarrow> allDeferred cfg s es \<Longrightarrow>
         throttleFields (run cfg es s) =
           (stateKey s, appliedViewState s,
            (case lastRequested es of Some v \<Rightarrow> Some v | None \<Rightarrow> pendingViewState s),
            lastLayoutUpdateMs s)"
proof (induction es arbitrary: s)
  case Nil
  then show ?case by (simp add: run_def throttleFields_def)
next
  case (Cons e es)
  let ?s1 = "step cfg e s"
  have one: "allDeferred cfg s [e]" using Cons.prems(2) by simp
  have ad: "allDeferred cfg ?s1 es" using Cons.prems(2) by simp
  have f1: "throttleFields ?s1 =
              (stateKey s, appliedViewState s,
               (case e of Update v t \<Rightarrow> Some v | _ \<Rightarrow> pendingViewState s), lastLayoutUpdateMs s)"
    by (rule deferred_step_fields [OF assms Cons.prems(1) one])
  then have vc: "viewConsistent ?s1" using Cons.prems(1)
    by (simp add: throttleFields_def viewConsistent_def)
  have "throttleFields (run cfg es ?s1) =
          (stateKey ?s1, appliedViewState ?s1,
           (case lastRequested es of Some v \<Rightarrow> Some v | None \<Rightarrow> pendingViewState ?s1),
           lastLayoutUpdateMs ?s1)"
    by (rule Cons.IH [OF vc ad])
  then show ?case using f1
    by (cases e) (simp_all add: run_Cons throttleFields_def split: option.splits)
qed

lemma deferred_run_key:
  assumes "enabled cfg"
  shows "viewConsistent s \<Longrightarrow> allDeferred cfg s es \<Longrightarrow> lastRequested es = Some p \<Longrightarrow>
         Some (stateKeyOf p) \<noteq> stateKey s"
proof (induction es arbitrary: s)
  case Nil
  then show ?case by simp
next
  case (Cons e es)
  let ?s1 = "step cfg e s"
  have one: "allDeferred cfg s [e]" using Cons.prems(2) by simp
  have ad: "allDeferred cfg ?s1 es" using Cons.prems(2) by simp
  have f1: "throttleFields ?s1 =
              (stateKey s, appliedViewState s,
               (case e of Update v t \<Rightarrow> Some v | _ \<Rightarrow> pendingViewState s), lastLayoutUpdateMs s)"
    by (rule deferred_step_fields [OF assms Cons.prems(1) one])
  then have vc: "viewConsistent ?s1" using Cons.prems(1)
    by (simp add: throttleFields_def viewConsistent_def)
  have k1: "stateKey ?s1 = stateKey s" using f1 by (simp add: throttleFields_def)
  show ?case
  proof (cases "lastRequested es")
    case (Some v)
    then have "lastRequested es = Some p" using Cons.prems(3) by simp
    then show ?thesis using Cons.IH [OF vc ad] k1 by simp
  next
    case None
    then obtain t where "e = Update p t" using Cons.prems(3) by (cases e) simp_all
    then show ?thesis using one by (simp add: deferred_def)
  qed
qed

text \<open>
  C3, as amended. Take a constructed, enabled layer in any state \<open>s\<close> reached by a sequence of
  events. A call of \<open>update\<close> that the throttle defers calls no \<open>applyViewState\<close>: it only
  advances the frame, stores its view state as pending and runs the end of the frame. After a
  stretch of events in which every \<open>update\<close> call is deferred (load completions may fall in
  between), the pending view state is the one of the last deferred call, and the applied view
  state, the state key and the time of the last layout are untouched. The next call that is
  not deferred (the throttle interval has elapsed, an immediate-class change has arrived, or
  the computed key is the applied one) calls \<open>applyViewState\<close> once, with that stored pending
  state and no earlier deferred state. The view state that this call computed itself plays
  no part: whatever it is, the applied state is the pending one and the pending slot is empty
  afterwards. A further call that computes the key of the state just applied applies nothing.
\<close>

theorem deferred_view_state_applied_once:
  assumes "constructor opts = Inr (cfg, s0)" and "enabled cfg"
    and "s = run cfg es0 s0"
    and "allDeferred cfg s es" and "lastRequested es = Some p"
  shows "(\<forall>v t. deferred cfg v t s \<longrightarrow>
            update cfg v t s =
              finishFrame cfg v t (s\<lparr>frame := frame s + 1, pendingViewState := Some v\<rparr>)) \<and>
         pendingViewState (run cfg es s) = Some p \<and>
         stateKey (run cfg es s) = stateKey s \<and>
         appliedViewState (run cfg es s) = appliedViewState s \<and>
         lastLayoutUpdateMs (run cfg es s) = lastLayoutUpdateMs s \<and>
         (\<forall>v t. \<not> deferred cfg v t (run cfg es s) \<longrightarrow>
            update cfg v t (run cfg es s) =
              finishFrame cfg v t
                ((applyViewState cfg t p
                    ((run cfg es s)\<lparr>frame := frame (run cfg es s) + 1,
                                     pendingViewState := None\<rparr>))
                   \<lparr>lastLayoutUpdateMs := t, appliedViewState := Some p\<rparr>) \<and>
            appliedViewState (update cfg v t (run cfg es s)) = Some p \<and>
            stateKey (update cfg v t (run cfg es s)) = Some (stateKeyOf p) \<and>
            pendingViewState (update cfg v t (run cfg es s)) = None \<and>
            lastLayoutUpdateMs (update cfg v t (run cfg es s)) = t \<and>
            (\<forall>t2. update cfg p t2 (update cfg v t (run cfg es s)) =
                    finishFrame cfg p t2
                      ((update cfg v t (run cfg es s))
                         \<lparr>frame := frame (update cfg v t (run cfg es s)) + 1\<rparr>)))"
proof -
  let ?s' = "run cfg es s"
  have s0: "s0 = initialState cfg" using assms(1) by (auto simp: constructor_def Let_def)
  have vc: "viewConsistent s"
    unfolding assms(3) s0 by (rule viewConsistent_run [OF viewConsistent_initialState])
  have f: "throttleFields ?s' = (stateKey s, appliedViewState s, Some p, lastLayoutUpdateMs s)"
    using deferred_run_fields [OF assms(2) vc assms(4)] assms(5) by simp
  have k: "Some (stateKeyOf p) \<noteq> stateKey ?s'"
    using deferred_run_key [OF assms(2) vc assms(4,5)] f by (simp add: throttleFields_def)
  have pend: "pendingViewState ?s' = Some p" using f by (simp add: throttleFields_def)
  have trig: "update cfg v t ?s' =
              finishFrame cfg v t
                ((applyViewState cfg t p (?s'\<lparr>frame := frame ?s' + 1, pendingViewState := None\<rparr>))
                   \<lparr>lastLayoutUpdateMs := t, appliedViewState := Some p\<rparr>) \<and>
            appliedViewState (update cfg v t ?s') = Some p \<and>
            stateKey (update cfg v t ?s') = Some (stateKeyOf p) \<and>
            pendingViewState (update cfg v t ?s') = None \<and>
            lastLayoutUpdateMs (update cfg v t ?s') = t \<and>
            (\<forall>t2. update cfg p t2 (update cfg v t ?s') =
                    finishFrame cfg p t2
                      ((update cfg v t ?s')\<lparr>frame := frame (update cfg v t ?s') + 1\<rparr>))"
    if nd: "\<not> deferred cfg v t ?s'" for v t
  proof -
    let ?u = "update cfg v t ?s'"
    have u: "?u = finishFrame cfg v t
                ((applyViewState cfg t p (?s'\<lparr>frame := frame ?s' + 1, pendingViewState := None\<rparr>))
                   \<lparr>lastLayoutUpdateMs := t, appliedViewState := Some p\<rparr>)"
      by (rule update_applies_pending [OF assms(2) nd pend k])
    have tf: "throttleFields ?u = (Some (stateKeyOf p), Some p, None, t)"
      unfolding u throttleFields_applied by simp
    then have fields: "stateKey ?u = Some (stateKeyOf p)" "appliedViewState ?u = Some p"
      "pendingViewState ?u = None" "lastLayoutUpdateMs ?u = t"
      by (simp_all add: throttleFields_def)
    have again: "update cfg p t2 ?u = finishFrame cfg p t2 (?u\<lparr>frame := frame ?u + 1\<rparr>)" for t2
      by (rule update_same_key [OF assms(2) fields(1) fields(3)])
    show ?thesis using u fields again by blast
  qed
  have fs: "stateKey ?s' = stateKey s" "appliedViewState ?s' = appliedViewState s"
    "lastLayoutUpdateMs ?s' = lastLayoutUpdateMs s"
    using f by (simp_all add: throttleFields_def)
  have def: "update cfg v t s =
               finishFrame cfg v t (s\<lparr>frame := frame s + 1, pendingViewState := Some v\<rparr>)"
    if "deferred cfg v t s" for v t
    by (rule update_deferred [OF assms(2) vc that])
  show ?thesis
  proof (intro conjI)
    show "pendingViewState ?s' = Some p" by (rule pend)
    show "stateKey ?s' = stateKey s" by (rule fs)
    show "appliedViewState ?s' = appliedViewState s" by (rule fs)
    show "lastLayoutUpdateMs ?s' = lastLayoutUpdateMs s" by (rule fs)
    show "\<forall>v t. deferred cfg v t s \<longrightarrow>
            update cfg v t s =
              finishFrame cfg v t (s\<lparr>frame := frame s + 1, pendingViewState := Some v\<rparr>)"
      using def by blast
  qed (use trig in blast)
qed

lemma shallow_enabled: "enabled (configOf shallowOptions)"
  by (simp add: configOf_def shallowOptions_def noOptions_def orElse_def Let_def)

lemma deferred_stretch:
  "allDeferred (configOf shallowOptions)
     (run (configOf shallowOptions) [Update (viewAt 10 512 341 0) 0]
        (initialState (configOf shallowOptions)))
     deferredEvents"
  "deferred (configOf shallowOptions) (viewAt 10 513 341 0) 50
     (run (configOf shallowOptions) [Update (viewAt 10 512 341 0) 0]
        (initialState (configOf shallowOptions)))"
  "\<not> deferred (configOf shallowOptions) (viewAt 10 514 341 0) 70
       (run (configOf shallowOptions) deferredEvents
          (run (configOf shallowOptions) [Update (viewAt 10 512 341 0) 0]
             (initialState (configOf shallowOptions))))"
  by code_simp+

text \<open>
  The claim as stated fails. With \<open>immediateTileShift = 2\<close> and \<open>updateThrottleMs = 80\<close>, let the
  view at center tile 512 be applied at 0 ms. The view at 513, arriving at 50 ms, is deferred
  and stored as pending. The view at 514, arriving at 60 ms, is an immediate-class change
  (shift 2) and is not deferred; the call applies the pending view at 513, which is older
  than the view that has arrived, and drops the view at 514: the desired set is the tile at
  513 and nothing is pending.
\<close>

lemma immediate_change_run:
  "\<not> deferred (configOf shallowOptions) (viewAt 10 514 341 0) 60
       (run (configOf shallowOptions)
          [Update (viewAt 10 512 341 0) 0, Update (viewAt 10 513 341 0) 50]
          (initialState (configOf shallowOptions)))"
  "throttleFields
     (run (configOf shallowOptions)
        [Update (viewAt 10 512 341 0) 0, Update (viewAt 10 513 341 0) 50]
        (initialState (configOf shallowOptions))) =
   (Some (stateKeyOf (viewAt 10 512 341 0)), Some (viewAt 10 512 341 0),
    Some (viewAt 10 513 341 0), 0)"
  "throttleFields
     (run (configOf shallowOptions)
        [Update (viewAt 10 512 341 0) 0, Update (viewAt 10 513 341 0) 50,
         Update (viewAt 10 514 341 0) 60]
        (initialState (configOf shallowOptions))) =
   (Some (stateKeyOf (viewAt 10 513 341 0)), Some (viewAt 10 513 341 0), None, 60)"
  "map dKey
     (activeDesiredTiles
        (run (configOf shallowOptions)
           [Update (viewAt 10 512 341 0) 0, Update (viewAt 10 513 341 0) 50,
            Update (viewAt 10 514 341 0) 60]
           (initialState (configOf shallowOptions)))) = [(10, 513, 341)]"
  by code_simp+

theorem deferred_view_state_applied_once_counterexample:
  "deferred (configOf shallowOptions) (viewAt 10 513 341 0) 50
     (run (configOf shallowOptions) [Update (viewAt 10 512 341 0) 0]
        (initialState (configOf shallowOptions))) \<and>
   pendingViewState
     (run (configOf shallowOptions)
        [Update (viewAt 10 512 341 0) 0, Update (viewAt 10 513 341 0) 50]
        (initialState (configOf shallowOptions))) = Some (viewAt 10 513 341 0) \<and>
   \<not> deferred (configOf shallowOptions) (viewAt 10 514 341 0) 60
       (run (configOf shallowOptions)
          [Update (viewAt 10 512 341 0) 0, Update (viewAt 10 513 341 0) 50]
          (initialState (configOf shallowOptions))) \<and>
   appliedViewState
     (run (configOf shallowOptions)
        [Update (viewAt 10 512 341 0) 0, Update (viewAt 10 513 341 0) 50,
         Update (viewAt 10 514 341 0) 60]
        (initialState (configOf shallowOptions))) = Some (viewAt 10 513 341 0) \<and>
   pendingViewState
     (run (configOf shallowOptions)
        [Update (viewAt 10 512 341 0) 0, Update (viewAt 10 513 341 0) 50,
         Update (viewAt 10 514 341 0) 60]
        (initialState (configOf shallowOptions))) = None \<and>
   map dKey
     (activeDesiredTiles
        (run (configOf shallowOptions)
           [Update (viewAt 10 512 341 0) 0, Update (viewAt 10 513 341 0) 50,
            Update (viewAt 10 514 341 0) 60]
           (initialState (configOf shallowOptions)))) = [(10, 513, 341)] \<and>
   viewAt 10 513 341 0 \<noteq> viewAt 10 514 341 0"
  using deferred_stretch(2) immediate_change_run
  by (simp add: throttleFields_def viewAt_def)

theorem deferred_view_state_applied_once_witness:
  "constructor shallowOptions =
     Inr (configOf shallowOptions, initialState (configOf shallowOptions)) \<and>
   enabled (configOf shallowOptions) \<and>
   allDeferred (configOf shallowOptions)
     (run (configOf shallowOptions) [Update (viewAt 10 512 341 0) 0]
        (initialState (configOf shallowOptions)))
     deferredEvents \<and>
   lastRequested deferredEvents = Some (viewAt 10 512 342 0) \<and>
   deferred (configOf shallowOptions) (viewAt 10 513 341 0) 50
     (run (configOf shallowOptions) [Update (viewAt 10 512 341 0) 0]
        (initialState (configOf shallowOptions))) \<and>
   update (configOf shallowOptions) (viewAt 10 513 341 0) 50
     (run (configOf shallowOptions) [Update (viewAt 10 512 341 0) 0]
        (initialState (configOf shallowOptions))) =
   finishFrame (configOf shallowOptions) (viewAt 10 513 341 0) 50
     ((run (configOf shallowOptions) [Update (viewAt 10 512 341 0) 0]
         (initialState (configOf shallowOptions)))
        \<lparr>frame := frame (run (configOf shallowOptions) [Update (viewAt 10 512 341 0) 0]
                           (initialState (configOf shallowOptions))) + 1,
          pendingViewState := Some (viewAt 10 513 341 0)\<rparr>) \<and>
   pendingViewState
     (run (configOf shallowOptions) deferredEvents
        (run (configOf shallowOptions) [Update (viewAt 10 512 341 0) 0]
           (initialState (configOf shallowOptions)))) = Some (viewAt 10 512 342 0) \<and>
   \<not> deferred (configOf shallowOptions) (viewAt 10 514 341 0) 70
       (run (configOf shallowOptions) deferredEvents
          (run (configOf shallowOptions) [Update (viewAt 10 512 341 0) 0]
             (initialState (configOf shallowOptions)))) \<and>
   appliedViewState
     (update (configOf shallowOptions) (viewAt 10 514 341 0) 70
        (run (configOf shallowOptions) deferredEvents
           (run (configOf shallowOptions) [Update (viewAt 10 512 341 0) 0]
              (initialState (configOf shallowOptions))))) = Some (viewAt 10 512 342 0)"
proof -
  let ?cfg = "configOf shallowOptions"
  let ?s = "run ?cfg [Update (viewAt 10 512 341 0) 0] (initialState ?cfg)"
  have h1: "constructor shallowOptions = Inr (?cfg, initialState ?cfg)"
    by (simp add: constructor_def Let_def)
  have h2: "enabled ?cfg" by (rule shallow_enabled)
  have h4: "allDeferred ?cfg ?s deferredEvents" by (rule deferred_stretch(1))
  have h5: "lastRequested deferredEvents = Some (viewAt 10 512 342 0)"
    by (simp add: deferredEvents_def)
  have d: "deferred ?cfg (viewAt 10 513 341 0) 50 ?s" by (rule deferred_stretch(2))
  have nd: "\<not> deferred ?cfg (viewAt 10 514 341 0) 70 (run ?cfg deferredEvents ?s)"
    by (rule deferred_stretch(3))
  note T = deferred_view_state_applied_once [OF h1 h2 refl h4 h5]
  note A = T [THEN conjunct1, rule_format, OF d]
  note B = T [THEN conjunct2, THEN conjunct1]
  note C = T [THEN conjunct2, THEN conjunct2, THEN conjunct2, THEN conjunct2, THEN conjunct2,
      rule_format, OF nd, THEN conjunct2, THEN conjunct1]
  show ?thesis by (intro conjI h1 h2 h4 h5 d A B nd C)
qed

section \<open>A disabled layer\<close>

text \<open>
  C10. If the layer is constructed with \<open>enabled = false\<close>, every call of \<open>update\<close> returns the
  state it was given: the frame counter, the tile cache, the outstanding requests and the
  telemetry snapshot are those of before the call.
\<close>

theorem update_disabled_noop:
  assumes "optEnabled opts = Some False"
    and "constructor opts = Inr (cfg, s0)"
  shows "update cfg v now s = s \<and> frame (update cfg v now s) = frame s \<and>
         tiles (update cfg v now s) = tiles s \<and> requests (update cfg v now s) = requests s \<and>
         debugInfo (update cfg v now s) = debugInfo s"
proof -
  have "cfg = configOf opts" using assms(2) by (simp add: constructor_def Let_def)
  then have "\<not> enabled cfg" using assms(1) by (simp add: configOf_def orElse_def Let_def)
  then show ?thesis by (simp add: update_def)
qed

theorem update_disabled_noop_witness:
  "optEnabled (noOptions\<lparr>optEnabled := Some False\<rparr>) = Some False \<and>
   constructor (noOptions\<lparr>optEnabled := Some False\<rparr>) =
     Inr (configOf (noOptions\<lparr>optEnabled := Some False\<rparr>),
          initialState (configOf (noOptions\<lparr>optEnabled := Some False\<rparr>))) \<and>
   update (configOf (noOptions\<lparr>optEnabled := Some False\<rparr>)) (viewAt 10 512 341 2) 0
     (initialState (configOf (noOptions\<lparr>optEnabled := Some False\<rparr>))) =
   initialState (configOf (noOptions\<lparr>optEnabled := Some False\<rparr>))"
proof -
  have a: "optEnabled (noOptions\<lparr>optEnabled := Some False\<rparr>) = Some False" by simp
  have b: "constructor (noOptions\<lparr>optEnabled := Some False\<rparr>) =
     Inr (configOf (noOptions\<lparr>optEnabled := Some False\<rparr>),
          initialState (configOf (noOptions\<lparr>optEnabled := Some False\<rparr>)))"
    by (simp add: constructor_def Let_def)
  show ?thesis using a b update_disabled_noop [OF a b] by simp
qed

end
